theory Spec2Isabelle
  imports Main
begin

section \<open>Runes and the character classes of Go's \<^verbatim>\<open>unicode\<close> package\<close>

text \<open>
  \<^verbatim>\<open>NewParser\<close> converts the input with \<^verbatim>\<open>[]rune(jsonStr)\<close>; the parser only ever
  looks at that rune slice. A rune is modelled by its code point, a natural number.
  A Go \<^verbatim>\<open>string\<close> built with \<^verbatim>\<open>strings.Builder.WriteRune\<close> is modelled by the list of
  runes written.
\<close>

type_synonym rune = nat

abbreviation (input) rn :: "char \<Rightarrow> rune" where
  "rn c \<equiv> of_char c"

text \<open>The four runes that cannot be written as a character literal here.\<close>

definition dquote :: rune where "dquote = 34"
definition squote :: rune where "squote = 39"
definition backslash :: rune where "backslash = 92"

definition in_ranges :: "(nat \<times> nat) list \<Rightarrow> nat \<Rightarrow> bool" where
  "in_ranges rs c = list_ex (\<lambda>(lo, hi). lo \<le> c \<and> c \<le> hi) rs"

text \<open>
  \<^verbatim>\<open>unicode.IsSpace\<close>: in Latin-1 the runes \<^verbatim>\<open>\t \n \v \f \r\<close>, space, U+0085 and U+00A0;
  beyond Latin-1 the property White\_Space.
\<close>

definition IsSpace :: "rune \<Rightarrow> bool" where
  "IsSpace r =
     (if r \<le> 255 then r \<in> {9, 10, 11, 12, 13, 32, 133, 160}
      else in_ranges [(5760, 5760), (8192, 8202), (8232, 8233), (8239, 8239),
                      (8287, 8287), (12288, 12288)] r)"

text \<open>
  \<^verbatim>\<open>unicode.IsDigit\<close>: in Latin-1 the ASCII digits; beyond Latin-1 the general category
  Nd (decimal digit). Every Go release ships the table of one Unicode version; the
  range table here is the one of Unicode 14.0.0. No proof below looks into it except
  at U+0663 (ARABIC-INDIC DIGIT THREE, a decimal digit in every version of the standard).
\<close>

definition unicode_Nd :: "(nat \<times> nat) list" where
  "unicode_Nd = [
    (1632, 1641), (1776, 1785), (1984, 1993), (2406, 2415), (2534, 2543), (2662, 2671),
    (2790, 2799), (2918, 2927), (3046, 3055), (3174, 3183), (3302, 3311), (3430, 3439),
    (3558, 3567), (3664, 3673), (3792, 3801), (3872, 3881), (4160, 4169), (4240, 4249),
    (6112, 6121), (6160, 6169), (6470, 6479), (6608, 6617), (6784, 6793), (6800, 6809),
    (6992, 7001), (7088, 7097), (7232, 7241), (7248, 7257), (42528, 42537), (43216, 43225),
    (43264, 43273), (43472, 43481), (43504, 43513), (43600, 43609), (44016, 44025),
    (65296, 65305), (66720, 66729), (68912, 68921), (69734, 69743), (69872, 69881),
    (69942, 69951), (70096, 70105), (70384, 70393), (70736, 70745), (70864, 70873),
    (71248, 71257), (71360, 71369), (71472, 71481), (71904, 71913), (72016, 72025),
    (72784, 72793), (73040, 73049), (73120, 73129), (92768, 92777), (92864, 92873),
    (93008, 93017), (120782, 120831), (123200, 123209), (123632, 123641), (125264, 125273),
    (130032, 130041)]"

definition IsDigit :: "rune \<Rightarrow> bool" where
  "IsDigit r = (if r \<le> 255 then 48 \<le> r \<and> r \<le> 57 else in_ranges unicode_Nd r)"

text \<open>
  \<^verbatim>\<open>unicode.IsLetter\<close>: the general category L. In Latin-1 these are the ASCII letters,
  U+00AA, U+00B5, U+00BA and U+00C0 to U+00FF without U+00D7 and U+00F7. The range
  table beyond Latin-1 is again the one of Unicode 14.0.0.
\<close>

definition unicode_L :: "(nat \<times> nat) list" where
  "unicode_L = [
    (256, 705), (710, 721), (736, 740), (748, 748), (750, 750), (880, 884), (886, 887),
    (890, 893), (895, 895), (902, 902), (904, 906), (908, 908), (910, 929), (931, 1013),
    (1015, 1153), (1162, 1327), (1329, 1366), (1369, 1369), (1376, 1416), (1488, 1514),
    (1519, 1522), (1568, 1610), (1646, 1647), (1649, 1747), (1749, 1749), (1765, 1766),
    (1774, 1775), (1786, 1788), (1791, 1791), (1808, 1808), (1810, 1839), (1869, 1957),
    (1969, 1969), (1994, 2026), (2036, 2037), (2042, 2042), (2048, 2069), (2074, 2074),
    (2084, 2084), (2088, 2088), (2112, 2136), (2144, 2154), (2160, 2183), (2185, 2190),
    (2208, 2249), (2308, 2361), (2365, 2365), (2384, 2384), (2392, 2401), (2417, 2432),
    (2437, 2444), (2447, 2448), (2451, 2472), (2474, 2480), (2482, 2482), (2486, 2489),
    (2493, 2493), (2510, 2510), (2524, 2525), (2527, 2529), (2544, 2545), (2556, 2556),
    (2565, 2570), (2575, 2576), (2579, 2600), (2602, 2608), (2610, 2611), (2613, 2614),
    (2616, 2617), (2649, 2652), (2654, 2654), (2674, 2676), (2693, 2701), (2703, 2705),
    (2707, 2728), (2730, 2736), (2738, 2739), (2741, 2745), (2749, 2749), (2768, 2768),
    (2784, 2785), (2809, 2809), (2821, 2828), (2831, 2832), (2835, 2856), (2858, 2864),
    (2866, 2867), (2869, 2873), (2877, 2877), (2908, 2909), (2911, 2913), (2929, 2929),
    (2947, 2947), (2949, 2954), (2958, 2960), (2962, 2965), (2969, 2970), (2972, 2972),
    (2974, 2975), (2979, 2980), (2984, 2986), (2990, 3001), (3024, 3024), (3077, 3084),
    (3086, 3088), (3090, 3112), (3114, 3129), (3133, 3133), (3160, 3162), (3165, 3165),
    (3168, 3169), (3200, 3200), (3205, 3212), (3214, 3216), (3218, 3240), (3242, 3251),
    (3253, 3257), (3261, 3261), (3293, 3294), (3296, 3297), (3313, 3314), (3332, 3340),
    (3342, 3344), (3346, 3386), (3389, 3389), (3406, 3406), (3412, 3414), (3423, 3425),
    (3450, 3455), (3461, 3478), (3482, 3505), (3507, 3515), (3517, 3517), (3520, 3526),
    (3585, 3632), (3634, 3635), (3648, 3654), (3713, 3714), (3716, 3716), (3718, 3722),
    (3724, 3747), (3749, 3749), (3751, 3760), (3762, 3763), (3773, 3773), (3776, 3780),
    (3782, 3782), (3804, 3807), (3840, 3840), (3904, 3911), (3913, 3948), (3976, 3980),
    (4096, 4138), (4159, 4159), (4176, 4181), (4186, 4189), (4193, 4193), (4197, 4198),
    (4206, 4208), (4213, 4225), (4238, 4238), (4256, 4293), (4295, 4295), (4301, 4301),
    (4304, 4346), (4348, 4680), (4682, 4685), (4688, 4694), (4696, 4696), (4698, 4701),
    (4704, 4744), (4746, 4749), (4752, 4784), (4786, 4789), (4792, 4798), (4800, 4800),
    (4802, 4805), (4808, 4822), (4824, 4880), (4882, 4885), (4888, 4954), (4992, 5007),
    (5024, 5109), (5112, 5117), (5121, 5740), (5743, 5759), (5761, 5786), (5792, 5866),
    (5873, 5880), (5888, 5905), (5919, 5937), (5952, 5969), (5984, 5996), (5998, 6000),
    (6016, 6067), (6103, 6103), (6108, 6108), (6176, 6264), (6272, 6276), (6279, 6312),
    (6314, 6314), (6320, 6389), (6400, 6430), (6480, 6509), (6512, 6516), (6528, 6571),
    (6576, 6601), (6656, 6678), (6688, 6740), (6823, 6823), (6917, 6963), (6981, 6988),
    (7043, 7072), (7086, 7087), (7098, 7141), (7168, 7203), (7245, 7247), (7258, 7293),
    (7296, 7304), (7312, 7354), (7357, 7359), (7401, 7404), (7406, 7411), (7413, 7414),
    (7418, 7418), (7424, 7615), (7680, 7957), (7960, 7965), (7968, 8005), (8008, 8013),
    (8016, 8023), (8025, 8025), (8027, 8027), (8029, 8029), (8031, 8061), (8064, 8116),
    (8118, 8124), (8126, 8126), (8130, 8132), (8134, 8140), (8144, 8147), (8150, 8155),
    (8160, 8172), (8178, 8180), (8182, 8188), (8305, 8305), (8319, 8319), (8336, 8348),
    (8450, 8450), (8455, 8455), (8458, 8467), (8469, 8469), (8473, 8477), (8484, 8484),
    (8486, 8486), (8488, 8488), (8490, 8493), (8495, 8505), (8508, 8511), (8517, 8521),
    (8526, 8526), (8579, 8580), (11264, 11492), (11499, 11502), (11506, 11507), (11520, 11557),
    (11559, 11559), (11565, 11565), (11568, 11623), (11631, 11631), (11648, 11670),
    (11680, 11686), (11688, 11694), (11696, 11702), (11704, 11710), (11712, 11718),
    (11720, 11726), (11728, 11734), (11736, 11742), (11823, 11823), (12293, 12294),
    (12337, 12341), (12347, 12348), (12353, 12438), (12445, 12447), (12449, 12538),
    (12540, 12543), (12549, 12591), (12593, 12686), (12704, 12735), (12784, 12799),
    (13312, 19903), (19968, 42124), (42192, 42237), (42240, 42508), (42512, 42527),
    (42538, 42539), (42560, 42606), (42623, 42653), (42656, 42725), (42775, 42783),
    (42786, 42888), (42891, 42954), (42960, 42961), (42963, 42963), (42965, 42969),
    (42994, 43009), (43011, 43013), (43015, 43018), (43020, 43042), (43072, 43123),
    (43138, 43187), (43250, 43255), (43259, 43259), (43261, 43262), (43274, 43301),
    (43312, 43334), (43360, 43388), (43396, 43442), (43471, 43471), (43488, 43492),
    (43494, 43503), (43514, 43518), (43520, 43560), (43584, 43586), (43588, 43595),
    (43616, 43638), (43642, 43642), (43646, 43695), (43697, 43697), (43701, 43702),
    (43705, 43709), (43712, 43712), (43714, 43714), (43739, 43741), (43744, 43754),
    (43762, 43764), (43777, 43782), (43785, 43790), (43793, 43798), (43808, 43814),
    (43816, 43822), (43824, 43866), (43868, 43881), (43888, 44002), (44032, 55203),
    (55216, 55238), (55243, 55291), (63744, 64109), (64112, 64217), (64256, 64262),
    (64275, 64279), (64285, 64285), (64287, 64296), (64298, 64310), (64312, 64316),
    (64318, 64318), (64320, 64321), (64323, 64324), (64326, 64433), (64467, 64829),
    (64848, 64911), (64914, 64967), (65008, 65019), (65136, 65140), (65142, 65276),
    (65313, 65338), (65345, 65370), (65382, 65470), (65474, 65479), (65482, 65487),
    (65490, 65495), (65498, 65500), (65536, 65547), (65549, 65574), (65576, 65594),
    (65596, 65597), (65599, 65613), (65616, 65629), (65664, 65786), (66176, 66204),
    (66208, 66256), (66304, 66335), (66349, 66368), (66370, 66377), (66384, 66421),
    (66432, 66461), (66464, 66499), (66504, 66511), (66560, 66717), (66736, 66771),
    (66776, 66811), (66816, 66855), (66864, 66915), (66928, 66938), (66940, 66954),
    (66956, 66962), (66964, 66965), (66967, 66977), (66979, 66993), (66995, 67001),
    (67003, 67004), (67072, 67382), (67392, 67413), (67424, 67431), (67456, 67461),
    (67463, 67504), (67506, 67514), (67584, 67589), (67592, 67592), (67594, 67637),
    (67639, 67640), (67644, 67644), (67647, 67669), (67680, 67702), (67712, 67742),
    (67808, 67826), (67828, 67829), (67840, 67861), (67872, 67897), (67968, 68023),
    (68030, 68031), (68096, 68096), (68112, 68115), (68117, 68119), (68121, 68149),
    (68192, 68220), (68224, 68252), (68288, 68295), (68297, 68324), (68352, 68405),
    (68416, 68437), (68448, 68466), (68480, 68497), (68608, 68680), (68736, 68786),
    (68800, 68850), (68864, 68899), (69248, 69289), (69296, 69297), (69376, 69404),
    (69415, 69415), (69424, 69445), (69488, 69505), (69552, 69572), (69600, 69622),
    (69635, 69687), (69745, 69746), (69749, 69749), (69763, 69807), (69840, 69864),
    (69891, 69926), (69956, 69956), (69959, 69959), (69968, 70002), (70006, 70006),
    (70019, 70066), (70081, 70084), (70106, 70106), (70108, 70108), (70144, 70161),
    (70163, 70187), (70272, 70278), (70280, 70280), (70282, 70285), (70287, 70301),
    (70303, 70312), (70320, 70366), (70405, 70412), (70415, 70416), (70419, 70440),
    (70442, 70448), (70450, 70451), (70453, 70457), (70461, 70461), (70480, 70480),
    (70493, 70497), (70656, 70708), (70727, 70730), (70751, 70753), (70784, 70831),
    (70852, 70853), (70855, 70855), (71040, 71086), (71128, 71131), (71168, 71215),
    (71236, 71236), (71296, 71338), (71352, 71352), (71424, 71450), (71488, 71494),
    (71680, 71723), (71840, 71903), (71935, 71942), (71945, 71945), (71948, 71955),
    (71957, 71958), (71960, 71983), (71999, 71999), (72001, 72001), (72096, 72103),
    (72106, 72144), (72161, 72161), (72163, 72163), (72192, 72192), (72203, 72242),
    (72250, 72250), (72272, 72272), (72284, 72329), (72349, 72349), (72368, 72440),
    (72704, 72712), (72714, 72750), (72768, 72768), (72818, 72847), (72960, 72966),
    (72968, 72969), (72971, 73008), (73030, 73030), (73056, 73061), (73063, 73064),
    (73066, 73097), (73112, 73112), (73440, 73458), (73648, 73648), (73728, 74649),
    (74880, 75075), (77712, 77808), (77824, 78894), (82944, 83526), (92160, 92728),
    (92736, 92766), (92784, 92862), (92880, 92909), (92928, 92975), (92992, 92995),
    (93027, 93047), (93053, 93071), (93760, 93823), (93952, 94026), (94032, 94032),
    (94099, 94111), (94176, 94177), (94179, 94179), (94208, 100343), (100352, 101589),
    (101632, 101640), (110576, 110579), (110581, 110587), (110589, 110590), (110592, 110882),
    (110928, 110930), (110948, 110951), (110960, 111355), (113664, 113770), (113776, 113788),
    (113792, 113800), (113808, 113817), (119808, 119892), (119894, 119964), (119966, 119967),
    (119970, 119970), (119973, 119974), (119977, 119980), (119982, 119993), (119995, 119995),
    (119997, 120003), (120005, 120069), (120071, 120074), (120077, 120084), (120086, 120092),
    (120094, 120121), (120123, 120126), (120128, 120132), (120134, 120134), (120138, 120144),
    (120146, 120485), (120488, 120512), (120514, 120538), (120540, 120570), (120572, 120596),
    (120598, 120628), (120630, 120654), (120656, 120686), (120688, 120712), (120714, 120744),
    (120746, 120770), (120772, 120779), (122624, 122654), (123136, 123180), (123191, 123197),
    (123214, 123214), (123536, 123565), (123584, 123627), (124896, 124902), (124904, 124907),
    (124909, 124910), (124912, 124926), (124928, 125124), (125184, 125251), (125259, 125259),
    (126464, 126467), (126469, 126495), (126497, 126498), (126500, 126500), (126503, 126503),
    (126505, 126514), (126516, 126519), (126521, 126521), (126523, 126523), (126530, 126530),
    (126535, 126535), (126537, 126537), (126539, 126539), (126541, 126543), (126545, 126546),
    (126548, 126548), (126551, 126551), (126553, 126553), (126555, 126555), (126557, 126557),
    (126559, 126559), (126561, 126562), (126564, 126564), (126567, 126570), (126572, 126578),
    (126580, 126583), (126585, 126588), (126590, 126590), (126592, 126601), (126603, 126619),
    (126625, 126627), (126629, 126633), (126635, 126651), (131072, 173791), (173824, 177976),
    (177984, 178205), (178208, 183969), (183984, 191456), (194560, 195101), (196608, 201546)]"

definition IsLetter :: "rune \<Rightarrow> bool" where
  "IsLetter r =
     (if r \<le> 255
      then (65 \<le> r \<and> r \<le> 90) \<or> (97 \<le> r \<and> r \<le> 122) \<or> r = 170 \<or> r = 181 \<or> r = 186
           \<or> (192 \<le> r \<and> r \<noteq> 215 \<and> r \<noteq> 247)
      else in_ranges unicode_L r)"

section \<open>Go standard-library helpers used by the parser\<close>

text \<open>\<^verbatim>\<open>strings.HasPrefix(s, prefix)\<close>.\<close>

definition HasPrefix :: "rune list \<Rightarrow> rune list \<Rightarrow> bool" where
  "HasPrefix s pre = (length pre \<le> length s \<and> take (length pre) s = pre)"

text \<open>\<^verbatim>\<open>strings.TrimRight(s, " \t\n\r")\<close>: drop the trailing runes that are in the cutset.\<close>

definition TrimRight :: "rune list \<Rightarrow> rune list \<Rightarrow> rune list" where
  "TrimRight s cutset = rev (dropWhile (\<lambda>c. c \<in> set cutset) (rev s))"

definition asciiDigit :: "rune \<Rightarrow> bool" where
  "asciiDigit c = (48 \<le> c \<and> c \<le> 57)"

definition digitsVal :: "rune list \<Rightarrow> nat" where
  "digitsVal ds = foldl (\<lambda>acc c. acc * 10 + (c - 48)) 0 ds"

text \<open>
  \<^verbatim>\<open>strconv.ParseInt(s, 10, 64)\<close>: an optional sign, then one or more ASCII digits; the
  value must fit in an int64. \<open>None\<close> stands for a non-nil error (syntax or range).
\<close>

definition ParseInt :: "rune list \<Rightarrow> int option" where
  "ParseInt s =
     (if s = [] then None
      else let neg = (hd s = rn CHR ''-'');
               ds = (if hd s = rn CHR ''+'' \<or> hd s = rn CHR ''-'' then tl s else s)
           in if ds = [] \<or> \<not> list_all asciiDigit ds then None
              else let un = digitsVal ds
                   in if \<not> neg \<and> un \<ge> 2 ^ 63 then None
                      else if neg \<and> un > 2 ^ 63 then None
                      else Some (if neg then - int un else int un))"

text \<open>
  \<^verbatim>\<open>strconv.ParseFloat(s, 64)\<close> on the texts that \<^verbatim>\<open>parseNumber\<close> can hand to it: runs
  of digits, dots, minus signs and the letters e and E (so no underscore, no hexadecimal
  prefix, no "inf" or "nan", which the Go function would also read). The mantissa scan
  of \<^verbatim>\<open>readFloat\<close> keeps: whether a dot and a digit were seen, the number \<open>nd\<close> of digits after the
  leading zeros, the position \<open>dp\<close> of the decimal point, and the value of the digits.
  It stops at a second dot or at any other byte and returns what is left.
\<close>

fun readMantissa :: "rune list \<Rightarrow> bool \<Rightarrow> bool \<Rightarrow> nat \<Rightarrow> int \<Rightarrow> nat
                      \<Rightarrow> (bool \<times> bool \<times> nat \<times> int \<times> nat \<times> rune list)" where
  "readMantissa [] sawdot sawdigits nd dp mant = (sawdot, sawdigits, nd, dp, mant, [])"
| "readMantissa (c # cs) sawdot sawdigits nd dp mant =
     (if c = rn CHR ''.'' then
        (if sawdot then (sawdot, sawdigits, nd, dp, mant, c # cs)
         else readMantissa cs True sawdigits nd (int nd) mant)
      else if asciiDigit c then
        (if c = rn CHR ''0'' \<and> nd = 0 then readMantissa cs sawdot True nd (dp - 1) mant
         else readMantissa cs sawdot True (nd + 1) dp (mant * 10 + (c - 48)))
      else (sawdot, sawdigits, nd, dp, mant, c # cs))"

text \<open>The exponent digits: \<^verbatim>\<open>if e < 10000 { e = e*10 + int(s[i]) - '0' }\<close>.\<close>

definition expVal :: "rune list \<Rightarrow> nat" where
  "expVal ds = foldl (\<lambda>e c. if e < 10000 then e * 10 + (c - 48) else e) 0 ds"

text \<open>
  A float64 is kept as the decimal it was read from: \<open>Float64 neg m k\<close> stands for the
  float64 nearest to \<open>\<plusminus> m \<times> 10\<^sup>k\<close>. The rounding itself is not modelled. The range
  error of \<^verbatim>\<open>ParseFloat\<close> is: the decimal rounds to \<open>2\<^sup>1\<^sup>0\<^sup>2\<^sup>4\<close> or more, that is, it is
  at least \<open>2\<^sup>1\<^sup>0\<^sup>2\<^sup>4 - 2\<^sup>9\<^sup>7\<^sup>0\<close>.
\<close>

datatype float64 = Float64 bool nat int

definition floatOverflow :: "nat \<Rightarrow> int \<Rightarrow> bool" where
  "floatOverflow m k =
     (if k \<ge> 0 then m * 10 ^ nat k \<ge> 2 ^ 1024 - 2 ^ 970
      else m \<ge> (2 ^ 1024 - 2 ^ 970) * 10 ^ nat (- k))"

definition ParseFloat :: "rune list \<Rightarrow> float64 option" where
  "ParseFloat s =
     (if s = [] then None
      else let neg = (hd s = rn CHR ''-'');
               s1 = (if hd s = rn CHR ''+'' \<or> hd s = rn CHR ''-'' then tl s else s)
           in case readMantissa s1 False False 0 0 0 of
                (sawdot, sawdigits, nd, dp0, mant, rest) \<Rightarrow>
                  if \<not> sawdigits then None
                  else let dp = (if sawdot then dp0 else int nd)
                       in if rest = [] then
                            (if floatOverflow mant (dp - int nd) then None
                             else Some (Float64 neg mant (dp - int nd)))
                          else if hd rest = rn CHR ''e'' \<or> hd rest = rn CHR ''E'' then
                            (let r1 = tl rest;
                                 eneg = (r1 \<noteq> [] \<and> hd r1 = rn CHR ''-'');
                                 ds = (if r1 \<noteq> [] \<and> (hd r1 = rn CHR ''+'' \<or> hd r1 = rn CHR ''-'')
                                       then tl r1 else r1)
                             in if ds = [] \<or> \<not> list_all asciiDigit ds then None
                                else let e = int (expVal ds);
                                         k = dp + (if eneg then - e else e) - int nd
                                     in if floatOverflow mant k then None
                                        else Some (Float64 neg mant k))
                          else None)"

section \<open>The parser state and the context stack\<close>

datatype contextValue = inArray | inObjectKey | inObjectValue

text \<open>\<^verbatim>\<open>jsonContext\<close> holds one slice, \<^verbatim>\<open>stack\<close>; the top of the stack is its last element.\<close>

type_synonym jsonContext = "contextValue list"

definition push :: "jsonContext \<Rightarrow> contextValue \<Rightarrow> jsonContext" where
  "push c val = c @ [val]"

definition pop :: "jsonContext \<Rightarrow> jsonContext" where
  "pop c = (if length c > 0 then take (length c - 1) c else c)"

definition current :: "jsonContext \<Rightarrow> contextValue option" where
  "current c = (if length c = 0 then None else Some (c ! (length c - 1)))"

text \<open>
  \<^verbatim>\<open>p.context.stack[len(p.context.stack)-1] = v\<close>: on an empty stack the index is -1 and
  Go panics; \<open>None\<close> is that panic.
\<close>

definition setTop :: "jsonContext \<Rightarrow> contextValue \<Rightarrow> jsonContext option" where
  "setTop c v = (if length c = 0 then None else Some (c[length c - 1 := v]))"

text \<open>
  The struct \<^verbatim>\<open>parser\<close>. The field \<^verbatim>\<open>context\<close> is called \<open>ctx\<close> here; the logger is left
  out, since no parsing function calls it.
\<close>

record parser =
  jsonStr :: "rune list"
  index :: nat
  ctx :: jsonContext

definition NewParser :: "rune list \<Rightarrow> parser" where
  "NewParser s = \<lparr>jsonStr = s, index = 0, ctx = []\<rparr>"

text \<open>
  What a call can end with besides a value: a non-nil \<^verbatim>\<open>error\<close> result (\<open>Err\<close>; the
  callers test it with \<^verbatim>\<open>err != nil\<close>) or a run-time panic (\<open>Panic\<close>; it unwinds through
  every caller).
\<close>

datatype fault = Err | Panic

text \<open>
  The dynamically typed result (\<^verbatim>\<open>interface{}\<close>): \<open>JNil\<close> is the nil interface, which is
  both JSON null and "no value". An object is a Go map; it is kept as an association
  list with one entry per key.
\<close>

datatype json =
    JNil
  | JBool bool
  | JInt int
  | JFloat float64
  | JString "rune list"
  | JArray "json list"
  | JObject "(rune list \<times> json) list"

text \<open>\<^verbatim>\<open>obj[key] = value\<close>: a later write to the same key replaces the value.\<close>

fun mapPut :: "(rune list \<times> json) list \<Rightarrow> rune list \<Rightarrow> json \<Rightarrow> (rune list \<times> json) list" where
  "mapPut [] k v = [(k, v)]"
| "mapPut ((k', v') # m) k v = (if k' = k then (k, v) # m else (k', v') # mapPut m k v)"

text \<open>\<^verbatim>\<open>getChar(offset)\<close>: the rune at \<open>index + offset\<close>, or \<open>None\<close> for \<^verbatim>\<open>(0, false)\<close>.\<close>

definition getChar :: "parser \<Rightarrow> int \<Rightarrow> rune option" where
  "getChar p offset =
     (if int (index p) + offset \<ge> int (length (jsonStr p)) \<or> int (index p) + offset < 0 then None
      else Some (jsonStr p ! nat (int (index p) + offset)))"

definition advance :: "parser \<Rightarrow> nat \<Rightarrow> parser" where
  "advance p k = p\<lparr>index := index p + k\<rparr>"

function skipWhitespace :: "parser \<Rightarrow> parser" where
  "skipWhitespace p =
     (case getChar p 0 of
        None \<Rightarrow> p
      | Some char \<Rightarrow> if \<not> IsSpace char then p else skipWhitespace (advance p 1))"
  by pat_completeness auto
termination
  by (relation "measure (\<lambda>p. length (jsonStr p) - index p)")
     (auto simp: getChar_def advance_def split: if_splits)

section \<open>Strings, numbers and literals\<close>

text \<open>The switch on the rune after a backslash: what is written to the builder.\<close>

definition escapeRune :: "rune \<Rightarrow> rune list" where
  "escapeRune nextChar =
     (if nextChar = dquote \<or> nextChar = backslash \<or> nextChar = rn CHR ''/'' \<or> nextChar = squote
      then [nextChar]
      else if nextChar = rn CHR ''b'' then [8]
      else if nextChar = rn CHR ''f'' then [12]
      else if nextChar = rn CHR ''n'' then [10]
      else if nextChar = rn CHR ''r'' then [13]
      else if nextChar = rn CHR ''t'' then [9]
      else [backslash, nextChar])"

text \<open>
  The end test of a string without quotes, on the top of the context stack
  (\<^verbatim>\<open>ctx, inCtx := p.context.current()\<close>).
\<close>

definition missingQuoteEnd :: "jsonContext \<Rightarrow> rune \<Rightarrow> bool" where
  "missingQuoteEnd c char =
     (case current c of
        Some cv \<Rightarrow>
          if cv = inObjectKey \<and> char = rn CHR '':'' then True
          else if (cv = inObjectValue \<or> cv = inArray)
                  \<and> (char = rn CHR '','' \<or> char = rn CHR ''}'' \<or> char = rn CHR '']'') then True
          else False
      | None \<Rightarrow> char = rn CHR '','' \<or> char = rn CHR ''}'' \<or> char = rn CHR '']'' \<or> char = rn CHR '':'')"

text \<open>
  The scanning loop of \<^verbatim>\<open>parseString\<close>. It yields the builder and the parser state,
  and whether it left by \<^verbatim>\<open>return\<close> (the closing quote, \<open>True\<close>) or by \<^verbatim>\<open>break\<close>.
\<close>

function stringLoop :: "parser \<Rightarrow> bool \<Rightarrow> rune \<Rightarrow> rune list \<Rightarrow> bool \<times> rune list \<times> parser" where
  "stringLoop p missingQuotes startQuote sb =
     (case getChar p 0 of
        None \<Rightarrow> (False, sb, p)
      | Some char \<Rightarrow>
          if char = backslash then
            (case getChar (advance p 1) 0 of
               None \<Rightarrow> (False, sb, advance p 1)
             | Some nextChar \<Rightarrow>
                 stringLoop (advance (advance p 1) 1) missingQuotes startQuote (sb @ escapeRune nextChar))
          else if \<not> missingQuotes \<and> char = startQuote then (True, sb, advance p 1)
          else if missingQuotes \<and> missingQuoteEnd (ctx p) char then (False, sb, p)
          else stringLoop (advance p 1) missingQuotes startQuote (sb @ [char]))"
  by pat_completeness auto
termination
  by (relation "measure (\<lambda>(p, m, q, sb). length (jsonStr p) - index p)")
     (auto simp: getChar_def advance_def split: if_splits)

definition parseString :: "parser \<Rightarrow> (fault + rune list) \<times> parser" where
  "parseString p0 =
     (let p = skipWhitespace p0 in
      case getChar p 0 of
        None \<Rightarrow> (Inr [], p)
      | Some char \<Rightarrow>
          let missingQuotes = \<not> (char = dquote \<or> char = squote);
              startQuote = (if missingQuotes then 0 else char);
              p1 = (if missingQuotes then p else advance p 1)
          in case stringLoop p1 missingQuotes startQuote [] of
               (returned, sb, p2) \<Rightarrow>
                 if returned then (Inr sb, p2)
                 else if missingQuotes then (Inr (TrimRight sb [32, 9, 10, 13]), p2)
                 else (Inr sb, p2))"

definition numberRune :: "rune \<Rightarrow> bool" where
  "numberRune char =
     (IsDigit char \<or> char = rn CHR ''.'' \<or> char = rn CHR ''-'' \<or> char = rn CHR ''e'' \<or> char = rn CHR ''E'')"

function numberLoop :: "parser \<Rightarrow> rune list \<Rightarrow> rune list \<times> parser" where
  "numberLoop p sb =
     (case getChar p 0 of
        None \<Rightarrow> (sb, p)
      | Some char \<Rightarrow>
          if \<not> IsDigit char \<and> char \<noteq> rn CHR ''.'' \<and> char \<noteq> rn CHR ''-''
             \<and> char \<noteq> rn CHR ''e'' \<and> char \<noteq> rn CHR ''E''
          then (sb, p)
          else numberLoop (advance p 1) (sb @ [char]))"
  by pat_completeness auto
termination
  by (relation "measure (\<lambda>(p, sb). length (jsonStr p) - index p)")
     (auto simp: getChar_def advance_def split: if_splits)

definition parseNumber :: "parser \<Rightarrow> (fault + json) \<times> parser" where
  "parseNumber p0 =
     (case numberLoop p0 [] of
        (numStr, p) \<Rightarrow>
          if rn CHR ''.'' \<in> set numStr \<or> rn CHR ''e'' \<in> set numStr \<or> rn CHR ''E'' \<in> set numStr then
            (case ParseFloat numStr of
               None \<Rightarrow> (Inr (JString numStr), p)
             | Some f \<Rightarrow> (Inr (JFloat f), p))
          else
            (case ParseInt numStr of
               None \<Rightarrow> (Inr (JString numStr), p)
             | Some i \<Rightarrow> (Inr (JInt i), p)))"

text \<open>\<^verbatim>\<open>return p.parseString()\<close> in a function whose result is \<^verbatim>\<open>interface{}\<close>.\<close>

definition asValue :: "(fault + rune list) \<times> parser \<Rightarrow> (fault + json) \<times> parser" where
  "asValue r = (case r of (Inl e, p) \<Rightarrow> (Inl e, p) | (Inr s, p) \<Rightarrow> (Inr (JString s), p))"

text \<open>
  \<^verbatim>\<open>p.jsonStr[p.index:]\<close> panics when the index is beyond the length of the slice.
\<close>

definition parseBooleanOrNull :: "parser \<Rightarrow> (fault + json) \<times> parser" where
  "parseBooleanOrNull p =
     (if index p > length (jsonStr p) then (Inl Panic, p)
      else if HasPrefix (drop (index p) (jsonStr p)) (map rn ''true'') then (Inr (JBool True), advance p 4)
      else if HasPrefix (drop (index p) (jsonStr p)) (map rn ''false'') then (Inr (JBool False), advance p 5)
      else if HasPrefix (drop (index p) (jsonStr p)) (map rn ''null'') then (Inr JNil, advance p 4)
      else asValue (parseString p))"

section \<open>The recursive descent\<close>

text \<open>
  \<^verbatim>\<open>parseJSON\<close>, \<^verbatim>\<open>parseObject\<close> and \<^verbatim>\<open>parseArray\<close> call each other, and \<^verbatim>\<open>parseJSON\<close>
  calls itself to skip a rune. Their first argument here bounds the depth of these
  calls (every call and every turn of a loop takes one unit); \<open>None\<close> means that the
  bound was reached before the call returned. The \<^verbatim>\<open>for\<close> loops of \<^verbatim>\<open>parseObject\<close> and
  \<^verbatim>\<open>parseArray\<close> are \<open>objectLoop\<close> and \<open>arrayLoop\<close>.
\<close>

definition letterContext :: "jsonContext \<Rightarrow> bool" where
  "letterContext c =
     (case current c of
        Some cv \<Rightarrow> cv = inObjectValue \<or> cv = inArray \<or> cv = inObjectKey
      | None \<Rightarrow> False)"

text \<open>\<^verbatim>\<open>if err != nil { value = "" }\<close> after the value of a key was parsed.\<close>

definition valueOrEmpty :: "fault + json \<Rightarrow> json" where
  "valueOrEmpty r = (case r of Inl e \<Rightarrow> JString [] | Inr value \<Rightarrow> value)"

fun parseJSON :: "nat \<Rightarrow> parser \<Rightarrow> ((fault + json) \<times> parser) option"
  and parseObject :: "nat \<Rightarrow> parser \<Rightarrow> ((fault + json) \<times> parser) option"
  and objectLoop :: "nat \<Rightarrow> parser \<Rightarrow> (rune list \<times> json) list
                       \<Rightarrow> ((fault + (rune list \<times> json) list) \<times> parser) option"
  and parseArray :: "nat \<Rightarrow> parser \<Rightarrow> ((fault + json) \<times> parser) option"
  and arrayLoop :: "nat \<Rightarrow> parser \<Rightarrow> json list \<Rightarrow> ((fault + json list) \<times> parser) option"
where
  "parseJSON 0 p0 = None"
| "parseJSON (Suc n) p0 =
     (let p = skipWhitespace p0 in
      case getChar p 0 of
        None \<Rightarrow> Some (Inr JNil, p)
      | Some char \<Rightarrow>
          if char = rn CHR ''{'' then parseObject n (advance p 1)
          else if char = rn CHR ''['' then parseArray n (advance p 1)
          else if char = dquote \<or> char = squote then Some (asValue (parseString p))
          else if IsDigit char \<or> char = rn CHR ''-'' then Some (parseNumber p)
          else if char = rn CHR ''t'' \<or> char = rn CHR ''f'' \<or> char = rn CHR ''n''
               then Some (parseBooleanOrNull p)
          else if IsLetter char \<and> letterContext (ctx p) then Some (asValue (parseString p))
          else parseJSON n (advance p 1))"
| "parseObject 0 p = None"
| "parseObject (Suc n) p =
     (case objectLoop n (p\<lparr>ctx := push (ctx p) inObjectKey\<rparr>) [] of
        None \<Rightarrow> None
      | Some (Inl e, p1) \<Rightarrow> Some (Inl e, p1\<lparr>ctx := pop (ctx p1)\<rparr>)
      | Some (Inr obj, p1) \<Rightarrow>
          let p2 = (if getChar p1 0 = Some (rn CHR ''}'') then advance p1 1 else p1)
          in Some (Inr (JObject obj), p2\<lparr>ctx := pop (ctx p2)\<rparr>))"
| "objectLoop 0 p0 obj = None"
| "objectLoop (Suc n) p0 obj =
     (let p = skipWhitespace p0 in
      case getChar p 0 of
        None \<Rightarrow> Some (Inr obj, p)
      | Some char \<Rightarrow>
          if char = rn CHR ''}'' then Some (Inr obj, p)
          else if char = rn CHR '','' then objectLoop n (advance p 1) obj
          else
            (case setTop (ctx p) inObjectKey of
               None \<Rightarrow> Some (Inl Panic, p)
             | Some c1 \<Rightarrow>
                 (case parseString (p\<lparr>ctx := c1\<rparr>) of
                    (Inl Panic, p2) \<Rightarrow> Some (Inl Panic, p2)
                  | (Inl Err, p2) \<Rightarrow>
                      let p3 = skipWhitespace p2 in
                      if getChar p3 0 = Some (rn CHR ''}'') then Some (Inr obj, p3)
                      else objectLoop n (advance p3 1) obj
                  | (Inr key, p2) \<Rightarrow>
                      let p3 = skipWhitespace p2;
                          p4 = (if getChar p3 0 = Some (rn CHR '':'') then advance p3 1 else p3)
                      in (case setTop (ctx p4) inObjectValue of
                            None \<Rightarrow> Some (Inl Panic, p4)
                          | Some c5 \<Rightarrow>
                              (case parseJSON n (p4\<lparr>ctx := c5\<rparr>) of
                                 None \<Rightarrow> None
                               | Some (Inl Panic, p6) \<Rightarrow> Some (Inl Panic, p6)
                               | Some (r, p6) \<Rightarrow>
                                   let obj' = mapPut obj key (valueOrEmpty r);
                                       p7 = skipWhitespace p6
                                   in if getChar p7 0 = Some (rn CHR '','')
                                      then objectLoop n (advance p7 1) obj'
                                      else if getChar p7 0 = Some (rn CHR ''}'')
                                      then Some (Inr obj', p7)
                                      else objectLoop n p7 obj')))))"
| "parseArray 0 p = None"
| "parseArray (Suc n) p =
     (case arrayLoop n (p\<lparr>ctx := push (ctx p) inArray\<rparr>) [] of
        None \<Rightarrow> None
      | Some (Inl e, p1) \<Rightarrow> Some (Inl e, p1\<lparr>ctx := pop (ctx p1)\<rparr>)
      | Some (Inr arr, p1) \<Rightarrow>
          let p2 = (if getChar p1 0 = Some (rn CHR '']'') then advance p1 1 else p1)
          in Some (Inr (JArray arr), p2\<lparr>ctx := pop (ctx p2)\<rparr>))"
| "arrayLoop 0 p0 arr = None"
| "arrayLoop (Suc n) p0 arr =
     (let p = skipWhitespace p0 in
      case getChar p 0 of
        None \<Rightarrow> Some (Inr arr, p)
      | Some char \<Rightarrow>
          if char = rn CHR '']'' then Some (Inr arr, p)
          else if char = rn CHR '','' then arrayLoop n (advance p 1) arr
          else
            (case parseJSON n p of
               None \<Rightarrow> None
             | Some (Inl Panic, p1) \<Rightarrow> Some (Inl Panic, p1)
             | Some (Inl Err, p1) \<Rightarrow>
                 let p2 = skipWhitespace p1 in
                 if getChar p2 0 = Some (rn CHR '']'') then Some (Inr arr, p2)
                 else arrayLoop n (advance p2 1) arr
             | Some (Inr value, p1) \<Rightarrow>
                 let arr' = arr @ [value];
                     p2 = skipWhitespace p1
                 in if getChar p2 0 = Some (rn CHR '','') then arrayLoop n (advance p2 1) arr'
                    else if getChar p2 0 = Some (rn CHR '']'') then Some (Inr arr', p2)
                    else arrayLoop n p2 arr'))"

section \<open>The entry points\<close>

text \<open>The loop of \<^verbatim>\<open>Parse\<close> over what follows the first value.\<close>

fun ParseLoop :: "nat \<Rightarrow> parser \<Rightarrow> json list \<Rightarrow> ((fault + json list) \<times> parser) option" where
  "ParseLoop 0 p0 results = None"
| "ParseLoop (Suc n) p0 results =
     (if index p0 < length (jsonStr p0) then
        let p = skipWhitespace p0 in
        if index p = length (jsonStr p) then Some (Inr results, p)
        else
          (case parseJSON n p of
             None \<Rightarrow> None
           | Some (Inl Panic, p1) \<Rightarrow> Some (Inl Panic, p1)
           | Some (Inl Err, p1) \<Rightarrow> ParseLoop n (advance p1 1) results
           | Some (Inr nextJSON, p1) \<Rightarrow>
               if nextJSON \<noteq> JNil then ParseLoop n p1 (results @ [nextJSON])
               else ParseLoop n (advance p1 1) results)
      else Some (Inr results, p0))"

definition ParseWith :: "nat \<Rightarrow> parser \<Rightarrow> ((fault + json) \<times> parser) option" where
  "ParseWith n p0 =
     (case parseJSON n p0 of
        None \<Rightarrow> None
      | Some (Inl e, p1) \<Rightarrow> Some (Inl e, p1)
      | Some (Inr json, p1) \<Rightarrow>
          let p = skipWhitespace p1 in
          if index p < length (jsonStr p) then
            (case ParseLoop n p [json] of
               None \<Rightarrow> None
             | Some (Inl e, p2) \<Rightarrow> Some (Inl e, p2)
             | Some (Inr results, p2) \<Rightarrow>
                 if length results = 1 then Some (Inr (results ! 0), p2)
                 else Some (Inr (JArray results), p2))
          else Some (Inr json, p))"

text \<open>
  \<^verbatim>\<open>Parse\<close> itself: the depth bound is three units for every rune that is still to be
  read, and three more. The theorems below show that this bound is never reached.
\<close>

definition parseFuel :: "parser \<Rightarrow> nat" where
  "parseFuel p = 3 * (length (jsonStr p) - index p) + 3"

definition Parse :: "parser \<Rightarrow> ((fault + json) \<times> parser) option" where
  "Parse p = ParseWith (parseFuel p) p"

text \<open>
  \<^verbatim>\<open>Loads\<close> and \<^verbatim>\<open>Repair\<close> of \<^verbatim>\<open>jsonrepair.go\<close>. The strict decoder \<^verbatim>\<open>json.Unmarshal\<close> and
  the encoder \<^verbatim>\<open>json.MarshalIndent\<close> of Go's \<^verbatim>\<open>encoding/json\<close> are parameters; \<open>None\<close> is
  their non-nil error. The text is given by its runes.
\<close>

datatype apiError = Recovery fault | RemarshalValid | MarshalRepaired

definition Repair :: "(rune list \<Rightarrow> json option) \<Rightarrow> (json \<Rightarrow> rune list option) \<Rightarrow> rune list
                      \<Rightarrow> (apiError + rune list) option" where
  "Repair Unmarshal MarshalIndent jsonText =
     (case Unmarshal jsonText of
        Some out \<Rightarrow>
          (case MarshalIndent out of
             None \<Rightarrow> Some (Inl RemarshalValid)
           | Some repaired \<Rightarrow> Some (Inr repaired))
      | None \<Rightarrow>
          (case Parse (NewParser jsonText) of
             None \<Rightarrow> None
           | Some (Inl e, p) \<Rightarrow> Some (Inl (Recovery e))
           | Some (Inr parsedJSON, p) \<Rightarrow>
               (case MarshalIndent parsedJSON of
                  None \<Rightarrow> Some (Inl MarshalRepaired)
                | Some repaired \<Rightarrow> Some (Inr repaired))))"

definition Loads :: "(rune list \<Rightarrow> json option) \<Rightarrow> rune list \<Rightarrow> (apiError + json) option" where
  "Loads Unmarshal jsonText =
     (case Unmarshal jsonText of
        Some out \<Rightarrow> Some (Inr out)
      | None \<Rightarrow>
          (case Parse (NewParser jsonText) of
             None \<Rightarrow> None
           | Some (Inl e, p) \<Rightarrow> Some (Inl (Recovery e))
           | Some (Inr v, p) \<Rightarrow> Some (Inr v)))"


section \<open>Auxiliary notions for the proofs\<close>

text \<open>The number of runes from the cursor to the end of the input.\<close>

definition remaining :: "parser \<Rightarrow> nat" where
  "remaining p = length (jsonStr p) - index p"

text \<open>From \<open>p\<close> to \<open>p'\<close> the cursor has not moved back; input and context stack are the same.\<close>

definition steps :: "parser \<Rightarrow> parser \<Rightarrow> bool" where
  "steps p p' \<longleftrightarrow> jsonStr p' = jsonStr p \<and> index p \<le> index p' \<and> ctx p' = ctx p"

text \<open>The same, except that the top of the context stack may have been overwritten.\<close>

definition lsteps :: "parser \<Rightarrow> parser \<Rightarrow> bool" where
  "lsteps p p' \<longleftrightarrow> jsonStr p' = jsonStr p \<and> index p \<le> index p'
     \<and> length (ctx p') = length (ctx p) \<and> butlast (ctx p') = butlast (ctx p)"

text \<open>
  What holds of every call that returns, at depth \<open>n\<close>: the error is nil, the cursor has
  not moved back, the context stack is restored, and \<^verbatim>\<open>parseJSON\<close> has moved the cursor
  unless it found the end of the input.
\<close>

definition descentInv :: "nat \<Rightarrow> bool" where
  "descentInv n \<longleftrightarrow>
     (\<forall>p r p'. parseJSON n p = Some (r, p') \<longrightarrow>
        (\<exists>v. r = Inr v) \<and> steps p p'
        \<and> (index (skipWhitespace p) < length (jsonStr p) \<longrightarrow> index (skipWhitespace p) < index p'))
   \<and> (\<forall>p r p'. parseObject n p = Some (r, p') \<longrightarrow> (\<exists>v. r = Inr v) \<and> steps p p')
   \<and> (\<forall>p obj r p'. objectLoop n p obj = Some (r, p') \<longrightarrow>
        jsonStr p' = jsonStr p \<and> index p \<le> index p'
        \<and> (ctx p \<noteq> [] \<longrightarrow> (\<exists>v. r = Inr v) \<and> lsteps p p'))
   \<and> (\<forall>p r p'. parseArray n p = Some (r, p') \<longrightarrow> (\<exists>v. r = Inr v) \<and> steps p p')
   \<and> (\<forall>p arr r p'. arrayLoop n p arr = Some (r, p') \<longrightarrow> (\<exists>v. r = Inr v) \<and> steps p p')"

text \<open>The depth that is enough for each function to return.\<close>

definition fuelInv :: "nat \<Rightarrow> bool" where
  "fuelInv n \<longleftrightarrow>
     (\<forall>p. 3 * remaining p + 1 \<le> n \<longrightarrow> parseJSON n p \<noteq> None)
   \<and> (\<forall>p. 3 * remaining p + 3 \<le> n \<longrightarrow> parseObject n p \<noteq> None)
   \<and> (\<forall>p obj. 3 * remaining p + 2 \<le> n \<longrightarrow> objectLoop n p obj \<noteq> None)
   \<and> (\<forall>p. 3 * remaining p + 3 \<le> n \<longrightarrow> parseArray n p \<noteq> None)
   \<and> (\<forall>p arr. 3 * remaining p + 2 \<le> n \<longrightarrow> arrayLoop n p arr \<noteq> None)"

text \<open>
  The values that the successive calls of \<^verbatim>\<open>parseJSON\<close> in the loop of \<^verbatim>\<open>Parse\<close> return, in
  the order of the calls, whether the loop keeps them or not. The cursor moves as in
  \<open>ParseLoop\<close>.
\<close>

fun loopValues :: "nat \<Rightarrow> parser \<Rightarrow> json list option" where
  "loopValues 0 p0 = None"
| "loopValues (Suc n) p0 =
     (if index p0 < length (jsonStr p0) then
        let p = skipWhitespace p0 in
        if index p = length (jsonStr p) then Some []
        else
          (case parseJSON n p of
             None \<Rightarrow> None
           | Some (Inl e, p1) \<Rightarrow> (if e = Panic then Some [] else loopValues n (advance p1 1))
           | Some (Inr nextJSON, p1) \<Rightarrow>
               map_option (\<lambda>vs. nextJSON # vs)
                 (loopValues n (if nextJSON \<noteq> JNil then p1 else advance p1 1)))
      else Some [])"


text \<open>
  The runes of a number as the specification lists them: ASCII digits, the dot, the minus
  sign and the letters e and E.
\<close>

definition specifiedNumberRune :: "rune \<Rightarrow> bool" where
  "specifiedNumberRune c =
     (asciiDigit c \<or> c = rn CHR ''.'' \<or> c = rn CHR ''-'' \<or> c = rn CHR ''e'' \<or> c = rn CHR ''E'')"

text \<open>A result that is reached with some depth is reached with one unit more.\<close>

definition fuelMono :: "nat \<Rightarrow> bool" where
  "fuelMono n \<longleftrightarrow>
     (\<forall>p x. parseJSON n p = Some x \<longrightarrow> parseJSON (Suc n) p = Some x)
   \<and> (\<forall>p x. parseObject n p = Some x \<longrightarrow> parseObject (Suc n) p = Some x)
   \<and> (\<forall>p obj x. objectLoop n p obj = Some x \<longrightarrow> objectLoop (Suc n) p obj = Some x)
   \<and> (\<forall>p x. parseArray n p = Some x \<longrightarrow> parseArray (Suc n) p = Some x)
   \<and> (\<forall>p arr x. arrayLoop n p arr = Some x \<longrightarrow> arrayLoop (Suc n) p arr = Some x)"

section \<open>Basic facts about the cursor\<close>

lemma getChar0: "getChar p 0 = (if index p < length (jsonStr p) then Some (jsonStr p ! index p) else None)"
  by (simp add: getChar_def)

lemma advance_simps [simp]:
  "jsonStr (advance p k) = jsonStr p" "index (advance p k) = index p + k" "ctx (advance p k) = ctx p"
  by (simp_all add: advance_def)

lemma advance_ctx [simp]: "advance (p\<lparr>ctx := c\<rparr>) k = (advance p k)\<lparr>ctx := c\<rparr>"
  by (simp add: advance_def)

lemma getChar_ctx [simp]: "getChar (p\<lparr>ctx := c\<rparr>) off = getChar p off"
  by (simp add: getChar_def)

lemma steps_refl [simp]: "steps p p"
  by (simp add: steps_def)

lemma steps_trans: "steps p q \<Longrightarrow> steps q r \<Longrightarrow> steps p r"
  by (auto simp: steps_def)

lemma steps_advance [simp]: "steps p (advance p k)"
  by (simp add: steps_def)

declare skipWhitespace.simps [simp del]

lemma skipWhitespace_steps: "steps p (skipWhitespace p)"
proof (induction p rule: skipWhitespace.induct)
  case (1 p)
  show ?case
  proof (cases "getChar p 0")
    case None
    then show ?thesis by (simp add: skipWhitespace.simps [of p])
  next
    case (Some c)
    show ?thesis
    proof (cases "IsSpace c")
      case True
      with Some 1 have "steps (advance p 1) (skipWhitespace (advance p 1))" by simp
      with Some True show ?thesis
        by (simp add: skipWhitespace.simps [of p] steps_def)
    next
      case False
      with Some show ?thesis by (simp add: skipWhitespace.simps [of p])
    qed
  qed
qed

lemma skipWhitespace_bound: "index p \<le> length (jsonStr p) \<Longrightarrow> index (skipWhitespace p) \<le> length (jsonStr p)"
proof (induction p rule: skipWhitespace.induct)
  case (1 p)
  show ?case
  proof (cases "getChar p 0")
    case None
    with 1 show ?thesis by (simp add: skipWhitespace.simps [of p])
  next
    case (Some c)
    then have lt: "index p < length (jsonStr p)" by (simp add: getChar0 split: if_splits)
    show ?thesis
    proof (cases "IsSpace c")
      case True
      with Some 1 lt have "index (skipWhitespace (advance p 1)) \<le> length (jsonStr (advance p 1))" by simp
      with Some True show ?thesis
        by (simp add: skipWhitespace.simps [of p])
    next
      case False
      with Some 1 show ?thesis by (simp add: skipWhitespace.simps [of p])
    qed
  qed
qed

lemma skipWhitespace_nonspace: "getChar (skipWhitespace p) 0 = Some c \<Longrightarrow> \<not> IsSpace c"
proof (induction p rule: skipWhitespace.induct)
  case (1 p)
  show ?case
  proof (cases "getChar p 0")
    case None
    with 1 show ?thesis by (simp add: skipWhitespace.simps [of p])
  next
    case (Some d)
    show ?thesis
    proof (cases "IsSpace d")
      case True
      with Some 1 show ?thesis by (simp add: skipWhitespace.simps [of p])
    next
      case False
      with Some 1 show ?thesis by (simp add: skipWhitespace.simps [of p])
    qed
  qed
qed

lemma skipWhitespace_fix: "getChar p 0 = None \<or> (\<exists>c. getChar p 0 = Some c \<and> \<not> IsSpace c) \<Longrightarrow> skipWhitespace p = p"
  by (auto simp: skipWhitespace.simps [of p])

lemma skipWhitespace_idem [simp]: "skipWhitespace (skipWhitespace p) = skipWhitespace p"
proof (cases "getChar (skipWhitespace p) 0")
  case None
  then show ?thesis by (simp add: skipWhitespace_fix)
next
  case (Some c)
  then show ?thesis using skipWhitespace_nonspace [OF Some] by (simp add: skipWhitespace_fix)
qed

declare stringLoop.simps [simp del] numberLoop.simps [simp del]

lemma stringLoop_steps: "stringLoop p m q sb = (ret, s, p') \<Longrightarrow> steps p p'"
proof (induction p m q sb rule: stringLoop.induct)
  case (1 p m q sb)
  show ?case
  proof (cases "getChar p 0")
    case None
    with 1(3) show ?thesis by (simp add: stringLoop.simps [of p])
  next
    case (Some c)
    show ?thesis
    proof (cases "c = backslash")
      case True
      show ?thesis
      proof (cases "getChar (advance p 1) 0")
        case None
        with Some True 1(3) show ?thesis by (auto simp add: stringLoop.simps [of p])
      next
        case (Some d)
        with \<open>getChar p 0 = Some c\<close> True 1(3)
        have "stringLoop (advance (advance p 1) 1) m q (sb @ escapeRune d) = (ret, s, p')"
          by (simp add: stringLoop.simps [of p])
        from 1(1) [OF \<open>getChar p 0 = Some c\<close> True Some this]
        show ?thesis by (auto simp: steps_def)
      qed
    next
      case False
      show ?thesis
      proof (cases "(\<not> m \<and> c = q) \<or> (m \<and> missingQuoteEnd (ctx p) c)")
        case True
        with Some False 1(3) show ?thesis by (auto simp add: stringLoop.simps [of p])
      next
        case stop: False
        with Some False 1(3)
        have "stringLoop (advance p 1) m q (sb @ [c]) = (ret, s, p')"
          by (auto simp add: stringLoop.simps [of p])
        with 1(2) [OF Some False] stop have "steps (advance p 1) p'" by auto
        then show ?thesis by (auto simp: steps_def)
      qed
    qed
  qed
qed

lemma stringLoop_progress:
  "stringLoop p m q sb = (ret, s, p') \<Longrightarrow> getChar p 0 = Some c \<Longrightarrow> \<not> (m \<and> c \<noteq> backslash \<and> missingQuoteEnd (ctx p) c)
   \<Longrightarrow> index p < index p'"
  apply (subst (asm) stringLoop.simps)
  apply (auto split: option.splits if_splits dest!: stringLoop_steps simp: steps_def)
  done

lemma stringLoop_stop:
  "getChar p 0 = Some c \<Longrightarrow> c \<noteq> backslash \<Longrightarrow> missingQuoteEnd (ctx p) c \<Longrightarrow> stringLoop p True q sb = (False, sb, p)"
  by (simp add: stringLoop.simps [of p])


lemma parseString_cases:
  obtains (eof) "getChar (skipWhitespace p) 0 = None" "parseString p = (Inr [], skipWhitespace p)"
  | (quoted) c ret sb p' where "getChar (skipWhitespace p) 0 = Some c" "c = dquote \<or> c = squote"
      "stringLoop (advance (skipWhitespace p) 1) False c [] = (ret, sb, p')"
      "parseString p = (Inr sb, p')"
  | (bare) c ret sb p' where "getChar (skipWhitespace p) 0 = Some c" "c \<noteq> dquote" "c \<noteq> squote"
      "stringLoop (skipWhitespace p) True 0 [] = (ret, sb, p')"
      "parseString p = (Inr (if ret then sb else TrimRight sb [32, 9, 10, 13]), p')"
proof (cases "getChar (skipWhitespace p) 0")
  case None
  then show ?thesis using eof by (simp add: parseString_def)
next
  case (Some c)
  show ?thesis
  proof (cases "c = dquote \<or> c = squote")
    case True
    obtain ret sb p' where l: "stringLoop (advance (skipWhitespace p) 1) False c [] = (ret, sb, p')"
      using prod_cases3 by blast
    with Some True have "parseString p = (Inr sb, p')"
      by (auto simp: parseString_def Let_def)
    with Some True l show ?thesis using quoted by blast
  next
    case False
    obtain ret sb p' where l: "stringLoop (skipWhitespace p) True 0 [] = (ret, sb, p')"
      using prod_cases3 by blast
    with Some False have "parseString p = (Inr (if ret then sb else TrimRight sb [32, 9, 10, 13]), p')"
      by (auto simp: parseString_def Let_def)
    with Some False l show ?thesis using bare by blast
  qed
qed

lemma parseString_ok: "\<exists>s p'. parseString p = (Inr s, p')"
  by (cases p rule: parseString_cases) auto

lemma parseString_steps: "parseString p = (r, p') \<Longrightarrow> steps p p'"
proof (cases p rule: parseString_cases)
  case eof
  then show "parseString p = (r, p') \<Longrightarrow> steps p p'" using skipWhitespace_steps [of p] by auto
next
  case (quoted c ret sb q)
  assume "parseString p = (r, p')"
  with quoted have "p' = q" by simp
  moreover have "steps (advance (skipWhitespace p) 1) q" using quoted(3) by (rule stringLoop_steps)
  ultimately show "steps p p'" using skipWhitespace_steps [of p] by (auto simp: steps_def)
next
  case (bare c ret sb q)
  assume "parseString p = (r, p')"
  with bare have "p' = q" by simp
  moreover have "steps (skipWhitespace p) q" using bare(4) by (rule stringLoop_steps)
  ultimately show "steps p p'" using skipWhitespace_steps [of p] by (auto simp: steps_def)
qed

text \<open>Either the string parser moves, or it stands on a rune that ends a string without quotes.\<close>

lemma parseString_progress:
  assumes "parseString p = (r, p')" "getChar (skipWhitespace p) 0 = Some c"
  shows "index (skipWhitespace p) < index p'
         \<or> (c \<noteq> dquote \<and> c \<noteq> squote \<and> c \<noteq> backslash \<and> missingQuoteEnd (ctx p) c \<and> p' = skipWhitespace p)"
proof (cases p rule: parseString_cases)
  case eof
  with assms show ?thesis by simp
next
  case (quoted d ret sb q)
  with assms have "p' = q" by simp
  moreover have "steps (advance (skipWhitespace p) 1) q" using quoted(3) by (rule stringLoop_steps)
  ultimately show ?thesis by (auto simp: steps_def)
next
  case (bare d ret sb q)
  with assms have [simp]: "p' = q" "d = c" by simp_all
  have cx: "ctx (skipWhitespace p) = ctx p" using skipWhitespace_steps [of p] by (simp add: steps_def)
  show ?thesis
  proof (cases "c \<noteq> backslash \<and> missingQuoteEnd (ctx p) c")
    case True
    with bare(1) cx have "stringLoop (skipWhitespace p) True 0 [] = (False, [], skipWhitespace p)"
      by (simp add: stringLoop_stop)
    with bare True show ?thesis by simp
  next
    case False
    with stringLoop_progress [OF bare(4) bare(1)] cx show ?thesis by auto
  qed
qed

lemma numberLoop_steps: "numberLoop p sb = (s, p') \<Longrightarrow> steps p p'"
proof (induction p sb rule: numberLoop.induct)
  case (1 p sb)
  show ?case
  proof (cases "getChar p 0")
    case None
    with 1(2) show ?thesis by (simp add: numberLoop.simps [of p])
  next
    case (Some c)
    show ?thesis
    proof (cases "numberRune c")
      case False
      with Some 1(2) show ?thesis by (auto simp add: numberLoop.simps [of p] numberRune_def)
    next
      case True
      with Some 1(2) have l: "numberLoop (advance p 1) (sb @ [c]) = (s, p')"
        by (auto simp add: numberLoop.simps [of p] numberRune_def)
      from True have "\<not> (\<not> IsDigit c \<and> c \<noteq> rn CHR ''.'' \<and> c \<noteq> rn CHR ''-'' \<and> c \<noteq> rn CHR ''e'' \<and> c \<noteq> rn CHR ''E'')"
        by (auto simp: numberRune_def)
      from 1(1) [OF Some this l] show ?thesis by (auto simp: steps_def)
    qed
  qed
qed

lemma numberLoop_progress:
  "numberLoop p sb = (s, p') \<Longrightarrow> getChar p 0 = Some c \<Longrightarrow> numberRune c \<Longrightarrow> index p < index p'"
  apply (subst (asm) numberLoop.simps)
  apply (auto split: option.splits if_splits dest!: numberLoop_steps simp: steps_def numberRune_def)
  done

lemma parseNumber_ok: "\<exists>v p'. parseNumber p = (Inr v, p')"
  by (auto simp: parseNumber_def split: prod.splits option.splits)

lemma parseNumber_steps: "parseNumber p = (r, p') \<Longrightarrow> steps p p'"
  by (auto simp: parseNumber_def split: prod.splits option.splits if_splits dest: numberLoop_steps)

lemma parseNumber_progress:
  "parseNumber p = (r, p') \<Longrightarrow> getChar p 0 = Some c \<Longrightarrow> numberRune c \<Longrightarrow> index p < index p'"
  by (auto simp: parseNumber_def split: prod.splits option.splits if_splits dest: numberLoop_progress)

lemma asValue_parseString_ok: "\<exists>v p'. asValue (parseString p) = (Inr v, p')"
  using parseString_ok [of p] by (auto simp: asValue_def)

lemma asValue_parseString_steps: "asValue (parseString p) = (r, p') \<Longrightarrow> steps p p'"
  using parseString_ok [of p] by (auto simp: asValue_def dest: parseString_steps)

lemma asValue_parseString_progress:
  assumes "asValue (parseString p) = (r, p')" "getChar (skipWhitespace p) 0 = Some c"
    "c = dquote \<or> c = squote \<or> \<not> missingQuoteEnd (ctx p) c"
  shows "index (skipWhitespace p) < index p'"
proof -
  from parseString_ok [of p] obtain s q where ps: "parseString p = (Inr s, q)" by blast
  with assms(1) have "p' = q" by (simp add: asValue_def)
  with parseString_progress [OF ps assms(2)] assms(3) show ?thesis by auto
qed

lemma parseBooleanOrNull_ok:
  "index p \<le> length (jsonStr p) \<Longrightarrow> \<exists>v p'. parseBooleanOrNull p = (Inr v, p')"
  using asValue_parseString_ok [of p] by (auto simp: parseBooleanOrNull_def)

lemma parseBooleanOrNull_steps: "parseBooleanOrNull p = (r, p') \<Longrightarrow> steps p p'"
  by (auto simp: parseBooleanOrNull_def split: if_splits dest: asValue_parseString_steps)

lemma missingQuoteEnd_runes:
  "missingQuoteEnd c char \<Longrightarrow> char = rn CHR '','' \<or> char = rn CHR ''}'' \<or> char = rn CHR '']'' \<or> char = rn CHR '':''"
  by (auto simp: missingQuoteEnd_def split: option.splits if_splits)

lemma parseBooleanOrNull_progress:
  assumes "parseBooleanOrNull p = (r, p')" "getChar p 0 = Some c"
    "c = rn CHR ''t'' \<or> c = rn CHR ''f'' \<or> c = rn CHR ''n''"
  shows "index p < index p'"
proof -
  have ns: "\<not> IsSpace c" using assms(3) by (auto simp: IsSpace_def)
  with assms(2) have sk: "skipWhitespace p = p" by (simp add: skipWhitespace_fix)
  have "\<not> missingQuoteEnd (ctx p) c" using assms(3) missingQuoteEnd_runes [of "ctx p" c] by auto
  moreover have "index p < length (jsonStr p)"
    using assms(2) by (simp add: getChar0 split: if_splits)
  ultimately show ?thesis
    using assms(1,2) sk asValue_parseString_progress [of p r p' c]
    by (auto simp: parseBooleanOrNull_def split: if_splits)
qed


lemma getChar0_Some: "getChar p 0 = Some c \<Longrightarrow> index p < length (jsonStr p)"
  by (simp add: getChar0 split: if_splits)

lemma getChar0_None: "getChar p 0 = None \<Longrightarrow> \<not> index p < length (jsonStr p)"
  by (simp add: getChar0 split: if_splits)

lemma steps_lsteps: "steps p q \<Longrightarrow> lsteps p q"
  by (simp add: steps_def lsteps_def)

lemma lsteps_trans: "lsteps p q \<Longrightarrow> lsteps q r \<Longrightarrow> lsteps p r"
  by (auto simp: lsteps_def)

lemma lsteps_setTop: "setTop (ctx p) v = Some c \<Longrightarrow> lsteps p (p\<lparr>ctx := c\<rparr>)"
  by (auto simp: lsteps_def setTop_def butlast_list_update split: if_splits)

lemma setTop_Some: "c \<noteq> [] \<Longrightarrow> \<exists>c'. setTop c v = Some c'"
  by (simp add: setTop_def)

lemma pop_push [simp]: "pop (push c v) = c"
  by (simp add: pop_def push_def)

lemma parseJSON_step:
  assumes inv: "descentInv n" and run: "parseJSON (Suc n) p0 = Some (r, p')"
  shows "(\<exists>v. r = Inr v) \<and> steps p0 p'
         \<and> (index (skipWhitespace p0) < length (jsonStr p0) \<longrightarrow> index (skipWhitespace p0) < index p')"
proof -
  define p where "p = skipWhitespace p0"
  have sp: "steps p0 p" unfolding p_def by (rule skipWhitespace_steps)
  have skp: "skipWhitespace p = p" unfolding p_def by simp
  have js: "jsonStr p = jsonStr p0" using sp by (simp add: steps_def)
  show ?thesis
  proof (cases "getChar p 0")
    case None
    with run have "r = Inr JNil" "p' = p" by (simp_all add: p_def)
    with sp getChar0_None [OF None] js show ?thesis by (simp add: p_def)
  next
    case (Some c)
    note lt = getChar0_Some [OF Some]
    consider (obj) "c = rn CHR ''{''"
      | (arr) "c \<noteq> rn CHR ''{''" "c = rn CHR ''[''"
      | (str) "c \<noteq> rn CHR ''{''" "c \<noteq> rn CHR ''[''" "c = dquote \<or> c = squote"
      | (num) "c \<noteq> rn CHR ''{''" "c \<noteq> rn CHR ''[''" "\<not> (c = dquote \<or> c = squote)"
              "IsDigit c \<or> c = rn CHR ''-''"
      | (lit) "c \<noteq> rn CHR ''{''" "c \<noteq> rn CHR ''[''" "\<not> (c = dquote \<or> c = squote)"
              "\<not> (IsDigit c \<or> c = rn CHR ''-'')"
              "c = rn CHR ''t'' \<or> c = rn CHR ''f'' \<or> c = rn CHR ''n''"
      | (bare) "c \<noteq> rn CHR ''{''" "c \<noteq> rn CHR ''[''" "\<not> (c = dquote \<or> c = squote)"
              "\<not> (IsDigit c \<or> c = rn CHR ''-'')"
              "\<not> (c = rn CHR ''t'' \<or> c = rn CHR ''f'' \<or> c = rn CHR ''n'')"
              "IsLetter c \<and> letterContext (ctx p)"
      | (skip) "c \<noteq> rn CHR ''{''" "c \<noteq> rn CHR ''[''" "\<not> (c = dquote \<or> c = squote)"
              "\<not> (IsDigit c \<or> c = rn CHR ''-'')"
              "\<not> (c = rn CHR ''t'' \<or> c = rn CHR ''f'' \<or> c = rn CHR ''n'')"
              "\<not> (IsLetter c \<and> letterContext (ctx p))"
      by blast
    then have "(\<exists>v. r = Inr v) \<and> steps p p' \<and> index p < index p'"
    proof cases
      case obj
      with run Some have "parseObject n (advance p 1) = Some (r, p')" by (simp add: p_def)
      with inv have "(\<exists>v. r = Inr v) \<and> steps (advance p 1) p'" unfolding descentInv_def by blast
      then show ?thesis by (auto simp: steps_def)
    next
      case arr
      with run Some have "parseArray n (advance p 1) = Some (r, p')" by (simp add: p_def)
      with inv have "(\<exists>v. r = Inr v) \<and> steps (advance p 1) p'" unfolding descentInv_def by blast
      then show ?thesis by (auto simp: steps_def)
    next
      case str
      with run Some have e: "asValue (parseString p) = (r, p')" by (auto simp add: p_def)
      from asValue_parseString_progress [OF e] Some str skp have "index p < index p'" by auto
      with asValue_parseString_ok [of p] asValue_parseString_steps [OF e] e show ?thesis by auto
    next
      case num
      with run Some have e: "parseNumber p = (r, p')" by (auto simp add: p_def)
      have "numberRune c" using num by (auto simp: numberRune_def)
      with parseNumber_progress [OF e Some] parseNumber_ok [of p] parseNumber_steps [OF e] e
      show ?thesis by auto
    next
      case lit
      with run Some have e: "parseBooleanOrNull p = (r, p')" by (auto simp add: p_def)
      with parseBooleanOrNull_progress [OF e Some] parseBooleanOrNull_ok [of p] lt
        parseBooleanOrNull_steps [OF e] lit
      show ?thesis by auto
    next
      case bare
      with run Some have e: "asValue (parseString p) = (r, p')" by (auto simp add: p_def)
      have "\<not> missingQuoteEnd (ctx p) c"
        using bare missingQuoteEnd_runes [of "ctx p" c] by (auto simp: IsLetter_def)
      with asValue_parseString_progress [OF e] Some skp have "index p < index p'" by auto
      with asValue_parseString_ok [of p] asValue_parseString_steps [OF e] e show ?thesis by auto
    next
      case skip
      with run Some have "parseJSON n (advance p 1) = Some (r, p')" by (auto simp add: p_def)
      with inv have "(\<exists>v. r = Inr v) \<and> steps (advance p 1) p'" unfolding descentInv_def by blast
      then show ?thesis by (auto simp: steps_def)
    qed
    with sp show ?thesis by (auto simp: steps_def p_def)
  qed
qed


lemma objectLoop_step:
  assumes inv: "descentInv n" and run: "objectLoop (Suc n) p0 obj = Some (r, p')"
  shows "jsonStr p' = jsonStr p0 \<and> index p0 \<le> index p'
         \<and> (ctx p0 \<noteq> [] \<longrightarrow> (\<exists>v. r = Inr v) \<and> lsteps p0 p')"
proof -
  define G where "G q \<longleftrightarrow> jsonStr p' = jsonStr q \<and> index q \<le> index p'
         \<and> (ctx q \<noteq> [] \<longrightarrow> (\<exists>v. r = Inr v) \<and> lsteps q p')" for q
  have recur: "G q" if "objectLoop n q m = Some (r, p')" for q m
    using inv that unfolding descentInv_def G_def by blast
  have lift: "G p0" if "G q" "lsteps p0 q" for q
    using that unfolding G_def by (auto simp: lsteps_def)
  have done_here: "G p0" if "lsteps p0 p'" "\<exists>v. r = Inr v"
    using that unfolding G_def by (auto simp: lsteps_def)
  define p where "p = skipWhitespace p0"
  have sp: "lsteps p0 p" unfolding p_def by (rule steps_lsteps [OF skipWhitespace_steps])
  have "G p0"
  proof (cases "getChar p 0")
    case None
    with run have "r = Inr obj" "p' = p" by (simp_all add: p_def)
    with sp show ?thesis by (simp add: done_here)
  next
    case (Some c)
    show ?thesis
    proof (cases "c = rn CHR ''}''")
      case True
      with Some run have "r = Inr obj" "p' = p" by (simp_all add: p_def)
      with sp show ?thesis by (simp add: done_here)
    next
      case nclose: False
      show ?thesis
      proof (cases "c = rn CHR '',''")
        case True
        with Some nclose run have "objectLoop n (advance p 1) obj = Some (r, p')" by (simp add: p_def)
        then have "G (advance p 1)" by (rule recur)
        moreover have "lsteps p0 (advance p 1)"
          using sp by (auto simp: lsteps_def)
        ultimately show ?thesis by (rule lift)
      next
        case ncomma: False
        show ?thesis
        proof (cases "ctx p = []")
          case True
          then have "setTop (ctx p) inObjectKey = None" by (simp add: setTop_def)
          with Some nclose ncomma run have "r = Inl Panic" "p' = p" by (simp_all add: p_def)
          moreover have "ctx p0 = []" using sp True by (simp add: lsteps_def)
          ultimately show ?thesis using sp by (simp add: G_def lsteps_def)
        next
          case False
          then obtain c1 where c1: "setTop (ctx p) inObjectKey = Some c1"
            using setTop_Some by blast
          obtain key p2 where ks: "parseString (p\<lparr>ctx := c1\<rparr>) = (Inr key, p2)"
            using parseString_ok by blast
          define p3 where "p3 = skipWhitespace p2"
          define p4 where "p4 = (if getChar p3 0 = Some (rn CHR '':'') then advance p3 1 else p3)"
          have "lsteps p (p\<lparr>ctx := c1\<rparr>)" using c1 by (rule lsteps_setTop)
          moreover have "steps (p\<lparr>ctx := c1\<rparr>) p2" using ks by (rule parseString_steps)
          moreover have "steps p2 p3" unfolding p3_def by (rule skipWhitespace_steps)
          moreover have "steps p3 p4" unfolding p4_def by simp
          ultimately have l4: "lsteps p0 p4"
            using sp by (auto simp: lsteps_def steps_def)
          then have "ctx p4 \<noteq> []"
            using False sp by (auto simp: lsteps_def)
          then obtain c5 where c5: "setTop (ctx p4) inObjectValue = Some c5"
            using setTop_Some by blast
          define p5 where "p5 = p4\<lparr>ctx := c5\<rparr>"
          have l5: "lsteps p0 p5"
            using lsteps_trans [OF l4 lsteps_setTop [OF c5]] by (simp add: p5_def)
          have unf: "objectLoop (Suc n) p0 obj =
                (case parseJSON n p5 of
                   None \<Rightarrow> None
                 | Some (Inl Panic, p6) \<Rightarrow> Some (Inl Panic, p6)
                 | Some (r, p6) \<Rightarrow>
                     let obj' = mapPut obj key (valueOrEmpty r);
                         p7 = skipWhitespace p6
                     in if getChar p7 0 = Some (rn CHR '','')
                        then objectLoop n (advance p7 1) obj'
                        else if getChar p7 0 = Some (rn CHR ''}'')
                        then Some (Inr obj', p7)
                        else objectLoop n p7 obj')"
            by (simp only: objectLoop.simps Let_def p_def [symmetric] Some option.case nclose ncomma
                  if_False c1 ks prod.case sum.case p3_def [symmetric] p4_def [symmetric] c5
                  p5_def [symmetric])
          from run unf obtain rr p6 where pj: "parseJSON n p5 = Some (rr, p6)"
            by (cases "parseJSON n p5") auto
          with inv obtain v where rr: "rr = Inr v" and s6: "steps p5 p6"
            unfolding descentInv_def by blast
          define obj' where "obj' = mapPut obj key v"
          define p7 where "p7 = skipWhitespace p6"
          have "steps p6 p7" unfolding p7_def by (rule skipWhitespace_steps)
          with s6 l5 have l7: "lsteps p0 p7" by (auto simp: lsteps_def steps_def)
          have unf2: "objectLoop (Suc n) p0 obj =
                (if getChar p7 0 = Some (rn CHR '','')
                        then objectLoop n (advance p7 1) obj'
                        else if getChar p7 0 = Some (rn CHR ''}'')
                        then Some (Inr obj', p7)
                        else objectLoop n p7 obj')"
            unfolding unf using pj rr by (simp add: valueOrEmpty_def obj'_def p7_def Let_def)
          consider (comma) "getChar p7 0 = Some (rn CHR '','')"
            | (close) "getChar p7 0 \<noteq> Some (rn CHR '','')" "getChar p7 0 = Some (rn CHR ''}'')"
            | (more) "getChar p7 0 \<noteq> Some (rn CHR '','')" "getChar p7 0 \<noteq> Some (rn CHR ''}'')"
            by blast
          then show ?thesis
          proof cases
            case comma
            with run unf2 have "objectLoop n (advance p7 1) obj' = Some (r, p')" by simp
            then have "G (advance p7 1)" by (rule recur)
            moreover have "lsteps p0 (advance p7 1)" using l7 by (auto simp: lsteps_def)
            ultimately show ?thesis by (rule lift)
          next
            case close
            with run unf2 have "r = Inr obj'" "p' = p7" by simp_all
            with l7 show ?thesis by (simp add: done_here)
          next
            case more
            with run unf2 have "objectLoop n p7 obj' = Some (r, p')" by simp
            then have "G p7" by (rule recur)
            then show ?thesis using l7 by (rule lift)
          qed
        qed
      qed
    qed
  qed
  then show ?thesis unfolding G_def by simp
qed


lemma arrayLoop_step:
  assumes inv: "descentInv n" and run: "arrayLoop (Suc n) p0 arr = Some (r, p')"
  shows "(\<exists>v. r = Inr v) \<and> steps p0 p'"
proof -
  have recur: "(\<exists>v. r = Inr v) \<and> steps q p'" if "arrayLoop n q a = Some (r, p')" for q a
    using inv that unfolding descentInv_def by blast
  define p where "p = skipWhitespace p0"
  have sp: "steps p0 p" unfolding p_def by (rule skipWhitespace_steps)
  show ?thesis
  proof (cases "getChar p 0")
    case None
    with run have "r = Inr arr" "p' = p" by (simp_all add: p_def)
    with sp show ?thesis by simp
  next
    case (Some c)
    show ?thesis
    proof (cases "c = rn CHR '']''")
      case True
      with Some run have "r = Inr arr" "p' = p" by (simp_all add: p_def)
      with sp show ?thesis by simp
    next
      case nclose: False
      show ?thesis
      proof (cases "c = rn CHR '',''")
        case True
        with Some nclose run have "arrayLoop n (advance p 1) arr = Some (r, p')" by (simp add: p_def)
        from recur [OF this] sp show ?thesis by (auto simp: steps_def)
      next
        case ncomma: False
        have unf: "arrayLoop (Suc n) p0 arr =
            (case parseJSON n p of
               None \<Rightarrow> None
             | Some (Inl Panic, p1) \<Rightarrow> Some (Inl Panic, p1)
             | Some (Inl Err, p1) \<Rightarrow>
                 let p2 = skipWhitespace p1 in
                 if getChar p2 0 = Some (rn CHR '']'') then Some (Inr arr, p2)
                 else arrayLoop n (advance p2 1) arr
             | Some (Inr value, p1) \<Rightarrow>
                 let arr' = arr @ [value];
                     p2 = skipWhitespace p1
                 in if getChar p2 0 = Some (rn CHR '','') then arrayLoop n (advance p2 1) arr'
                    else if getChar p2 0 = Some (rn CHR '']'') then Some (Inr arr', p2)
                    else arrayLoop n p2 arr')"
          by (simp only: arrayLoop.simps Let_def p_def [symmetric] Some option.case nclose ncomma if_False)
        from run unf obtain rr p1 where pj: "parseJSON n p = Some (rr, p1)"
          by (cases "parseJSON n p") auto
        with inv obtain v where rr: "rr = Inr v" and s1: "steps p p1"
          unfolding descentInv_def by blast
        define arr' where "arr' = arr @ [v]"
        define p2 where "p2 = skipWhitespace p1"
        have "steps p1 p2" unfolding p2_def by (rule skipWhitespace_steps)
        with s1 sp have s2: "steps p0 p2" by (auto simp: steps_def)
        have unf2: "arrayLoop (Suc n) p0 arr =
                (if getChar p2 0 = Some (rn CHR '','') then arrayLoop n (advance p2 1) arr'
                    else if getChar p2 0 = Some (rn CHR '']'') then Some (Inr arr', p2)
                    else arrayLoop n p2 arr')"
          unfolding unf using pj rr by (simp add: arr'_def p2_def Let_def)
        consider (comma) "getChar p2 0 = Some (rn CHR '','')"
          | (close) "getChar p2 0 \<noteq> Some (rn CHR '','')" "getChar p2 0 = Some (rn CHR '']'')"
          | (more) "getChar p2 0 \<noteq> Some (rn CHR '','')" "getChar p2 0 \<noteq> Some (rn CHR '']'')"
          by blast
        then show ?thesis
        proof cases
          case comma
          with run unf2 have "arrayLoop n (advance p2 1) arr' = Some (r, p')" by simp
          from recur [OF this] s2 show ?thesis by (auto simp: steps_def)
        next
          case close
          with run unf2 have "r = Inr arr'" "p' = p2" by simp_all
          with s2 show ?thesis by simp
        next
          case more
          with run unf2 have "arrayLoop n p2 arr' = Some (r, p')" by simp
          from recur [OF this] s2 show ?thesis by (auto simp: steps_def)
        qed
      qed
    qed
  qed
qed

lemma pop_lsteps:
  assumes "lsteps (p\<lparr>ctx := push (ctx p) v\<rparr>) p1"
  shows "pop (ctx p1) = ctx p"
proof -
  from assms have "length (ctx p1) = Suc (length (ctx p))" "butlast (ctx p1) = ctx p"
    by (simp_all add: lsteps_def push_def)
  then show ?thesis by (simp add: pop_def butlast_conv_take)
qed

lemma parseObject_step:
  assumes inv: "descentInv n" and run: "parseObject (Suc n) p = Some (r, p')"
  shows "(\<exists>v. r = Inr v) \<and> steps p p'"
proof -
  define q where "q = p\<lparr>ctx := push (ctx p) inObjectKey\<rparr>"
  from run obtain rr p1 where ol: "objectLoop n q [] = Some (rr, p1)"
    by (cases "objectLoop n q []") (auto simp: q_def)
  have "ctx q \<noteq> []" by (simp add: q_def push_def)
  with inv ol obtain obj where rr: "rr = Inr obj" and l1: "lsteps q p1"
    unfolding descentInv_def by blast
  define p2 where "p2 = (if getChar p1 0 = Some (rn CHR ''}'') then advance p1 1 else p1)"
  from run ol rr have res: "r = Inr (JObject obj)" "p' = p2\<lparr>ctx := pop (ctx p2)\<rparr>"
    by (simp_all add: q_def [symmetric] p2_def Let_def)
  have "lsteps q p2" using l1 by (auto simp: p2_def lsteps_def)
  then have "pop (ctx p2) = ctx p" "jsonStr p2 = jsonStr p" "index p \<le> index p2"
    using pop_lsteps [of p inObjectKey p2] by (simp_all add: q_def lsteps_def)
  with res show ?thesis by (simp add: steps_def)
qed

lemma parseArray_step:
  assumes inv: "descentInv n" and run: "parseArray (Suc n) p = Some (r, p')"
  shows "(\<exists>v. r = Inr v) \<and> steps p p'"
proof -
  define q where "q = p\<lparr>ctx := push (ctx p) inArray\<rparr>"
  from run obtain rr p1 where al: "arrayLoop n q [] = Some (rr, p1)"
    by (cases "arrayLoop n q []") (auto simp: q_def)
  with inv obtain arr where rr: "rr = Inr arr" and l1: "steps q p1"
    unfolding descentInv_def by blast
  define p2 where "p2 = (if getChar p1 0 = Some (rn CHR '']'') then advance p1 1 else p1)"
  from run al rr have res: "r = Inr (JArray arr)" "p' = p2\<lparr>ctx := pop (ctx p2)\<rparr>"
    by (simp_all add: q_def [symmetric] p2_def Let_def)
  have "steps q p2" using l1 by (auto simp: p2_def steps_def)
  then have "pop (ctx p2) = ctx p" "jsonStr p2 = jsonStr p" "index p \<le> index p2"
    by (simp_all add: q_def steps_def)
  with res show ?thesis by (simp add: steps_def)
qed

lemma descentInv_all: "descentInv n"
proof (induction n)
  case 0
  show ?case by (simp add: descentInv_def)
next
  case (Suc n)
  show ?case
    unfolding descentInv_def
    using parseJSON_step [OF Suc] parseObject_step [OF Suc] objectLoop_step [OF Suc]
      parseArray_step [OF Suc] arrayLoop_step [OF Suc]
    by blast
qed


lemma remaining_steps: "steps p q \<Longrightarrow> remaining q \<le> remaining p"
  by (auto simp: steps_def remaining_def)

lemma remaining_less:
  "jsonStr q = jsonStr p \<Longrightarrow> index p < index q \<Longrightarrow> index p < length (jsonStr p)
   \<Longrightarrow> remaining q < remaining p"
  by (auto simp: remaining_def)

lemma remaining_ctx [simp]: "remaining (p\<lparr>ctx := c\<rparr>) = remaining p"
  by (simp add: remaining_def)

lemma parseJSON_fuel_step:
  assumes inv: "fuelInv n" and fuel: "3 * remaining p0 + 1 \<le> Suc n"
  shows "parseJSON (Suc n) p0 \<noteq> None"
proof -
  define p where "p = skipWhitespace p0"
  have sp: "steps p0 p" unfolding p_def by (rule skipWhitespace_steps)
  show ?thesis
  proof (cases "getChar p 0")
    case None
    then show ?thesis by (simp add: p_def)
  next
    case (Some c)
    note lt = getChar0_Some [OF Some]
    have "remaining (advance p 1) < remaining p" using lt by (simp add: remaining_def)
    with remaining_steps [OF sp] fuel have f: "3 * remaining (advance p 1) + 3 \<le> n" by simp
    with inv have "parseJSON n (advance p 1) \<noteq> None" "parseObject n (advance p 1) \<noteq> None"
      "parseArray n (advance p 1) \<noteq> None"
      unfolding fuelInv_def by simp_all
    with Some show ?thesis by (simp add: p_def [symmetric])
  qed
qed

lemma parseObject_fuel_step:
  assumes inv: "fuelInv n" and fuel: "3 * remaining p + 3 \<le> Suc n"
  shows "parseObject (Suc n) p \<noteq> None"
proof -
  from inv fuel have "objectLoop n (p\<lparr>ctx := push (ctx p) inObjectKey\<rparr>) [] \<noteq> None"
    unfolding fuelInv_def by simp
  then show ?thesis by (auto simp: Let_def split: prod.splits sum.splits)
qed

lemma parseArray_fuel_step:
  assumes inv: "fuelInv n" and fuel: "3 * remaining p + 3 \<le> Suc n"
  shows "parseArray (Suc n) p \<noteq> None"
proof -
  from inv fuel have "arrayLoop n (p\<lparr>ctx := push (ctx p) inArray\<rparr>) [] \<noteq> None"
    unfolding fuelInv_def by simp
  then show ?thesis by (auto simp: Let_def split: prod.splits sum.splits)
qed

lemma setTop_current: "setTop c v = Some c' \<Longrightarrow> current c' = Some v"
  by (auto simp: setTop_def current_def split: if_splits)

lemma key_progress:
  assumes c: "getChar p 0 = Some c" and ns: "\<not> IsSpace c"
    and c1: "setTop (ctx p) inObjectKey = Some c1"
    and ks: "parseString (p\<lparr>ctx := c1\<rparr>) = (r, p2)"
  shows "index p < index (if getChar (skipWhitespace p2) 0 = Some (rn CHR '':'')
                          then advance (skipWhitespace p2) 1 else skipWhitespace p2)"
proof -
  have sk: "skipWhitespace (p\<lparr>ctx := c1\<rparr>) = p\<lparr>ctx := c1\<rparr>"
    using c ns by (simp add: skipWhitespace_fix)
  have s3: "index p2 \<le> index (skipWhitespace p2)"
    using skipWhitespace_steps [of p2] by (simp add: steps_def)
  from parseString_progress [OF ks, of c] c sk
  consider "index p < index p2" | "missingQuoteEnd c1 c" "p2 = p\<lparr>ctx := c1\<rparr>"
    by auto
  then show ?thesis
  proof cases
    case 1
    with s3 show ?thesis by auto
  next
    case 2
    have "current c1 = Some inObjectKey" using c1 by (rule setTop_current)
    with 2(1) have "c = rn CHR '':''" by (auto simp: missingQuoteEnd_def split: if_splits)
    with 2(2) sk c show ?thesis by simp
  qed
qed

lemma objectLoop_fuel_step:
  assumes inv: "fuelInv n" and fuel: "3 * remaining p0 + 2 \<le> Suc n"
  shows "objectLoop (Suc n) p0 obj \<noteq> None"
proof -
  have recur: "objectLoop n q m \<noteq> None" if "remaining q < remaining p0" for q m
    using inv that fuel unfolding fuelInv_def by simp
  define p where "p = skipWhitespace p0"
  have sp: "steps p0 p" unfolding p_def by (rule skipWhitespace_steps)
  have js: "jsonStr p = jsonStr p0" using sp by (simp add: steps_def)
  show ?thesis
  proof (cases "getChar p 0")
    case None
    then show ?thesis by (simp add: p_def)
  next
    case (Some c)
    note lt = getChar0_Some [OF Some]
    have ns: "\<not> IsSpace c" using Some skipWhitespace_nonspace unfolding p_def by blast
    have less: "remaining q < remaining p0" if "jsonStr q = jsonStr p" "index p < index q" for q
      using remaining_less [OF that lt] remaining_steps [OF sp] by simp
    show ?thesis
    proof (cases "c = rn CHR ''}''")
      case True
      with Some show ?thesis by (simp add: p_def)
    next
      case nclose: False
      show ?thesis
      proof (cases "c = rn CHR '',''")
        case True
        have "objectLoop n (advance p 1) obj \<noteq> None" by (rule recur [OF less]) simp_all
        with Some nclose True show ?thesis by (simp add: p_def)
      next
        case ncomma: False
        show ?thesis
        proof (cases "setTop (ctx p) inObjectKey")
          case None
          with Some nclose ncomma show ?thesis by (simp add: p_def)
        next
          case c1: (Some c1)
          obtain key p2 where ks: "parseString (p\<lparr>ctx := c1\<rparr>) = (Inr key, p2)"
            using parseString_ok by blast
          define p3 where "p3 = skipWhitespace p2"
          define p4 where "p4 = (if getChar p3 0 = Some (rn CHR '':'') then advance p3 1 else p3)"
          have i4: "index p < index p4"
            unfolding p4_def p3_def by (rule key_progress [OF Some ns c1 ks])
          have "steps (p\<lparr>ctx := c1\<rparr>) p2" using ks by (rule parseString_steps)
          moreover have "steps p2 p3" unfolding p3_def by (rule skipWhitespace_steps)
          moreover have "steps p3 p4" unfolding p4_def by simp
          ultimately have j4: "jsonStr p4 = jsonStr p" by (simp add: steps_def)
          show ?thesis
          proof (cases "setTop (ctx p4) inObjectValue")
            case None
            then show ?thesis
              by (simp only: objectLoop.simps Let_def p_def [symmetric] Some option.case nclose ncomma
                  if_False c1 ks prod.case sum.case p3_def [symmetric] p4_def [symmetric]) simp
          next
            case c5: (Some c5)
            define p5 where "p5 = p4\<lparr>ctx := c5\<rparr>"
            have unf: "objectLoop (Suc n) p0 obj =
                (case parseJSON n p5 of
                   None \<Rightarrow> None
                 | Some (Inl Panic, p6) \<Rightarrow> Some (Inl Panic, p6)
                 | Some (r, p6) \<Rightarrow>
                     let obj' = mapPut obj key (valueOrEmpty r);
                         p7 = skipWhitespace p6
                     in if getChar p7 0 = Some (rn CHR '','')
                        then objectLoop n (advance p7 1) obj'
                        else if getChar p7 0 = Some (rn CHR ''}'')
                        then Some (Inr obj', p7)
                        else objectLoop n p7 obj')"
              by (simp only: objectLoop.simps Let_def p_def [symmetric] Some option.case nclose ncomma
                  if_False c1 ks prod.case sum.case p3_def [symmetric] p4_def [symmetric] c5
                  p5_def [symmetric])
            have "remaining p5 < remaining p0" using less [OF j4 i4] by (simp add: p5_def)
            with fuel inv have "parseJSON n p5 \<noteq> None" unfolding fuelInv_def by simp
            then obtain rr p6 where pj: "parseJSON n p5 = Some (rr, p6)" by auto
            with descentInv_all [of n] obtain v where rr: "rr = Inr v" and s6: "steps p5 p6"
              unfolding descentInv_def by blast
            define p7 where "p7 = skipWhitespace p6"
            have "steps p6 p7" unfolding p7_def by (rule skipWhitespace_steps)
            with s6 j4 i4 have "jsonStr p7 = jsonStr p" "index p < index p7"
              by (auto simp: steps_def p5_def)
            then have r1: "remaining p7 < remaining p0" and r2: "remaining (advance p7 1) < remaining p0"
              by (auto intro!: less)
            have "objectLoop n p7 m \<noteq> None" "objectLoop n (advance p7 1) m \<noteq> None" for m
              by (rule recur [OF r1], rule recur [OF r2])
            then show ?thesis
              unfolding unf using pj rr by (simp add: p7_def Let_def)
          qed
        qed
      qed
    qed
  qed
qed

lemma arrayLoop_fuel_step:
  assumes inv: "fuelInv n" and fuel: "3 * remaining p0 + 2 \<le> Suc n"
  shows "arrayLoop (Suc n) p0 arr \<noteq> None"
proof -
  have recur: "arrayLoop n q m \<noteq> None" if "remaining q < remaining p0" for q m
    using inv that fuel unfolding fuelInv_def by simp
  define p where "p = skipWhitespace p0"
  have sp: "steps p0 p" unfolding p_def by (rule skipWhitespace_steps)
  have skp: "skipWhitespace p = p" unfolding p_def by simp
  show ?thesis
  proof (cases "getChar p 0")
    case None
    then show ?thesis by (simp add: p_def)
  next
    case (Some c)
    note lt = getChar0_Some [OF Some]
    have less: "remaining q < remaining p0" if "jsonStr q = jsonStr p" "index p < index q" for q
      using remaining_less [OF that lt] remaining_steps [OF sp] by simp
    show ?thesis
    proof (cases "c = rn CHR '']''")
      case True
      with Some show ?thesis by (simp add: p_def)
    next
      case nclose: False
      show ?thesis
      proof (cases "c = rn CHR '',''")
        case True
        have "arrayLoop n (advance p 1) arr \<noteq> None" by (rule recur [OF less]) simp_all
        with Some nclose True show ?thesis by (simp add: p_def)
      next
        case ncomma: False
        have unf: "arrayLoop (Suc n) p0 arr =
            (case parseJSON n p of
               None \<Rightarrow> None
             | Some (Inl Panic, p1) \<Rightarrow> Some (Inl Panic, p1)
             | Some (Inl Err, p1) \<Rightarrow>
                 let p2 = skipWhitespace p1 in
                 if getChar p2 0 = Some (rn CHR '']'') then Some (Inr arr, p2)
                 else arrayLoop n (advance p2 1) arr
             | Some (Inr value, p1) \<Rightarrow>
                 let arr' = arr @ [value];
                     p2 = skipWhitespace p1
                 in if getChar p2 0 = Some (rn CHR '','') then arrayLoop n (advance p2 1) arr'
                    else if getChar p2 0 = Some (rn CHR '']'') then Some (Inr arr', p2)
                    else arrayLoop n p2 arr')"
          by (simp only: arrayLoop.simps Let_def p_def [symmetric] Some option.case nclose ncomma if_False)
        have "remaining p \<le> remaining p0" using sp by (rule remaining_steps)
        with fuel inv have "parseJSON n p \<noteq> None" unfolding fuelInv_def by simp
        then obtain rr p1 where pj: "parseJSON n p = Some (rr, p1)" by auto
        with descentInv_all [of n] skp lt obtain v where rr: "rr = Inr v" and s1: "steps p p1"
          and i1: "index p < index p1"
          unfolding descentInv_def by metis
        define p2 where "p2 = skipWhitespace p1"
        have "steps p1 p2" unfolding p2_def by (rule skipWhitespace_steps)
        with s1 i1 have "jsonStr p2 = jsonStr p" "index p < index p2"
          by (auto simp: steps_def)
        then have r1: "remaining p2 < remaining p0" and r2: "remaining (advance p2 1) < remaining p0"
          by (auto intro!: less)
        have "arrayLoop n p2 m \<noteq> None" "arrayLoop n (advance p2 1) m \<noteq> None" for m
          by (rule recur [OF r1], rule recur [OF r2])
        then show ?thesis
          unfolding unf using pj rr by (simp add: p2_def Let_def)
      qed
    qed
  qed
qed

lemma fuelInv_all: "fuelInv n"
proof (induction n)
  case 0
  show ?case by (simp add: fuelInv_def)
next
  case (Suc n)
  show ?case
    unfolding fuelInv_def
    using parseJSON_fuel_step [OF Suc] parseObject_fuel_step [OF Suc] objectLoop_fuel_step [OF Suc]
      parseArray_fuel_step [OF Suc] arrayLoop_fuel_step [OF Suc]
    by blast
qed


lemma parseJSON_facts:
  assumes "parseJSON n p = Some (r, p')"
  shows "\<exists>v. r = Inr v" "steps p p'"
    "index (skipWhitespace p) < length (jsonStr p) \<Longrightarrow> index (skipWhitespace p) < index p'"
  using descentInv_all [of n] assms unfolding descentInv_def by blast+

lemma parseJSON_fuel: "3 * remaining p + 1 \<le> n \<Longrightarrow> \<exists>v p'. parseJSON n p = Some (Inr v, p')"
proof -
  assume "3 * remaining p + 1 \<le> n"
  with fuelInv_all [of n] have "parseJSON n p \<noteq> None" unfolding fuelInv_def by blast
  then obtain r p' where e: "parseJSON n p = Some (r, p')" by auto
  with parseJSON_facts(1) [OF e] show ?thesis by auto
qed

lemma ParseLoop_collects:
  "ParseLoop n p0 results = Some (r, p') \<Longrightarrow>
     steps p0 p' \<and> (\<exists>vs. loopValues n p0 = Some vs \<and> r = Inr (results @ filter (\<lambda>v. v \<noteq> JNil) vs))"
proof (induction n arbitrary: p0 results)
  case 0
  then show ?case by simp
next
  case (Suc n)
  note run = Suc.prems
  show ?case
  proof (cases "index p0 < length (jsonStr p0)")
    case False
    with run show ?thesis by simp
  next
    case True
    define p where "p = skipWhitespace p0"
    have sp: "steps p0 p" unfolding p_def by (rule skipWhitespace_steps)
    show ?thesis
    proof (cases "index p = length (jsonStr p)")
      case atend: True
      with True run have "r = Inr results" "p' = p" by (simp_all add: p_def [symmetric])
      with sp True atend show ?thesis by (simp add: p_def [symmetric])
    next
      case False
      from run True False obtain rr p1 where pj: "parseJSON n p = Some (rr, p1)"
        by (cases "parseJSON n p") (auto simp: p_def [symmetric])
      from parseJSON_facts(1,2) [OF pj] obtain v where rr: "rr = Inr v" and s1: "steps p p1"
        by blast
      show ?thesis
      proof (cases "v = JNil")
        case nil: True
        with run True False pj rr have "ParseLoop n (advance p1 1) results = Some (r, p')"
          by (simp add: p_def [symmetric])
        from Suc.IH [OF this] sp s1 True False pj rr nil show ?thesis
          by (auto simp: p_def [symmetric] steps_def)
      next
        case val: False
        with run True False pj rr have "ParseLoop n p1 (results @ [v]) = Some (r, p')"
          by (simp add: p_def [symmetric])
        from Suc.IH [OF this] sp s1 True False pj rr val show ?thesis
          by (auto simp: p_def [symmetric] steps_def)
      qed
    qed
  qed
qed

lemma ParseLoop_fuel:
  "3 * remaining p0 + 2 \<le> n \<Longrightarrow> ParseLoop n p0 results \<noteq> None"
proof (induction n arbitrary: p0 results)
  case 0
  then show ?case by simp
next
  case (Suc n)
  show ?case
  proof (cases "index p0 < length (jsonStr p0)")
    case False
    then show ?thesis by simp
  next
    case True
    define p where "p = skipWhitespace p0"
    have sp: "steps p0 p" unfolding p_def by (rule skipWhitespace_steps)
    have skp: "skipWhitespace p = p" unfolding p_def by simp
    have le: "index p \<le> length (jsonStr p)"
      using skipWhitespace_bound [of p0] True sp by (simp add: p_def steps_def)
    show ?thesis
    proof (cases "index p = length (jsonStr p)")
      case atend: True
      with True show ?thesis by (simp add: p_def [symmetric])
    next
      case False
      with le have lt: "index p < length (jsonStr p)" by simp
      have "remaining p \<le> remaining p0" using sp by (rule remaining_steps)
      with Suc.prems have "3 * remaining p + 1 \<le> n" by simp
      from parseJSON_fuel [OF this] obtain v p1 where pj: "parseJSON n p = Some (Inr v, p1)" by blast
      from parseJSON_facts(2,3) [OF pj] skp lt have s1: "steps p p1" and i1: "index p < index p1"
        by simp_all
      then have "remaining p1 < remaining p" "remaining (advance p1 1) < remaining p"
        using lt by (auto simp: remaining_def steps_def)
      with \<open>remaining p \<le> remaining p0\<close> Suc.prems
      have f1: "3 * remaining p1 + 2 \<le> n" and f2: "3 * remaining (advance p1 1) + 2 \<le> n"
        by simp_all
      have "ParseLoop n p1 rs \<noteq> None" "ParseLoop n (advance p1 1) rs \<noteq> None" for rs
        by (rule Suc.IH [OF f1], rule Suc.IH [OF f2])
      with True False pj show ?thesis by (simp add: p_def [symmetric])
    qed
  qed
qed

lemma ParseWith_total:
  assumes "3 * remaining p + 2 \<le> n"
  shows "\<exists>v p'. ParseWith n p = Some (Inr v, p') \<and> steps p p'"
proof -
  from assms have "3 * remaining p + 1 \<le> n" by simp
  from parseJSON_fuel [OF this] obtain v p1 where pj: "parseJSON n p = Some (Inr v, p1)" by blast
  have s1: "steps p p1" using pj by (rule parseJSON_facts(2))
  define q where "q = skipWhitespace p1"
  have sq: "steps p1 q" unfolding q_def by (rule skipWhitespace_steps)
  show ?thesis
  proof (cases "index q < length (jsonStr q)")
    case False
    with pj have "ParseWith n p = Some (Inr v, q)" by (simp add: ParseWith_def q_def [symmetric])
    with s1 sq show ?thesis by (auto intro: steps_trans)
  next
    case True
    have "remaining q \<le> remaining p" using remaining_steps [OF s1] remaining_steps [OF sq] by simp
    with assms have "3 * remaining q + 2 \<le> n" by simp
    then have "ParseLoop n q [v] \<noteq> None" by (rule ParseLoop_fuel)
    then obtain r p2 where pl: "ParseLoop n q [v] = Some (r, p2)" by auto
    from ParseLoop_collects [OF pl] obtain vs where s2: "steps q p2" and r: "r = Inr ([v] @ vs)"
      by blast
    with pj True pl have "\<exists>w. ParseWith n p = Some (Inr w, p2)"
      by (simp add: ParseWith_def q_def [symmetric])
    moreover have "steps p p2" using s1 sq s2 by (auto simp: steps_def)
    ultimately show ?thesis by auto
  qed
qed

lemma Parse_total: "\<exists>v p'. Parse p = Some (Inr v, p') \<and> steps p p'"
  unfolding Parse_def by (rule ParseWith_total) (simp add: parseFuel_def remaining_def)

section \<open>The depth bound does not change a result\<close>

lemma parseJSON_mono_step:
  assumes inv: "fuelMono n" and run: "parseJSON (Suc n) p0 = Some x"
  shows "parseJSON (Suc (Suc n)) p0 = Some x"
proof -
  define p where "p = skipWhitespace p0"
  show ?thesis
  proof (cases "getChar p 0")
    case None
    with run show ?thesis by (simp add: p_def)
  next
    case (Some c)
    consider (obj) "c = rn CHR ''{''"
      | (arr) "c \<noteq> rn CHR ''{''" "c = rn CHR ''[''"
      | (skip) "c \<noteq> rn CHR ''{''" "c \<noteq> rn CHR ''[''" "\<not> (c = dquote \<or> c = squote)"
              "\<not> (IsDigit c \<or> c = rn CHR ''-'')"
              "\<not> (c = rn CHR ''t'' \<or> c = rn CHR ''f'' \<or> c = rn CHR ''n'')"
              "\<not> (IsLetter c \<and> letterContext (ctx p))"
      | (leaf) "c \<noteq> rn CHR ''{''" "c \<noteq> rn CHR ''[''"
              "(c = dquote \<or> c = squote) \<or> (IsDigit c \<or> c = rn CHR ''-'')
               \<or> (c = rn CHR ''t'' \<or> c = rn CHR ''f'' \<or> c = rn CHR ''n'')
               \<or> (IsLetter c \<and> letterContext (ctx p))"
      by blast
    then show ?thesis
    proof cases
      case obj
      with run Some have "parseObject n (advance p 1) = Some x" by (simp add: p_def)
      with inv have "parseObject (Suc n) (advance p 1) = Some x" unfolding fuelMono_def by blast
      with obj Some show ?thesis by (simp add: p_def [symmetric] del: parseObject.simps)
    next
      case arr
      with run Some have "parseArray n (advance p 1) = Some x" by (simp add: p_def)
      with inv have "parseArray (Suc n) (advance p 1) = Some x" unfolding fuelMono_def by blast
      with arr Some show ?thesis by (simp add: p_def [symmetric] del: parseArray.simps)
    next
      case skip
      with run Some have "parseJSON n (advance p 1) = Some x" by (auto simp add: p_def)
      with inv have "parseJSON (Suc n) (advance p 1) = Some x" unfolding fuelMono_def by blast
      with skip Some show ?thesis
        by (subst parseJSON.simps) (auto simp add: p_def [symmetric] simp del: parseJSON.simps)
    next
      case leaf
      have "parseJSON (Suc (Suc n)) p0 = parseJSON (Suc n) p0"
        using leaf Some
        by (subst parseJSON.simps, subst (2) parseJSON.simps)
           (auto simp add: p_def [symmetric] Let_def simp del: parseJSON.simps)
      with run show ?thesis by simp
    qed
  qed
qed

lemma parseObject_mono_step:
  assumes inv: "fuelMono n" and run: "parseObject (Suc n) p = Some x"
  shows "parseObject (Suc (Suc n)) p = Some x"
proof -
  define q where "q = p\<lparr>ctx := push (ctx p) inObjectKey\<rparr>"
  from run obtain y where ol: "objectLoop n q [] = Some y"
    by (cases "objectLoop n q []") (auto simp: q_def)
  with inv have "objectLoop (Suc n) q [] = Some y" unfolding fuelMono_def by blast
  with run ol show ?thesis
    by (simp add: q_def [symmetric] del: objectLoop.simps)
qed

lemma parseArray_mono_step:
  assumes inv: "fuelMono n" and run: "parseArray (Suc n) p = Some x"
  shows "parseArray (Suc (Suc n)) p = Some x"
proof -
  define q where "q = p\<lparr>ctx := push (ctx p) inArray\<rparr>"
  from run obtain y where ol: "arrayLoop n q [] = Some y"
    by (cases "arrayLoop n q []") (auto simp: q_def)
  with inv have "arrayLoop (Suc n) q [] = Some y" unfolding fuelMono_def by blast
  with run ol show ?thesis
    by (simp add: q_def [symmetric] del: arrayLoop.simps)
qed


lemma objectLoop_value_phase:
  assumes c: "getChar (skipWhitespace p0) 0 = Some c" and nclose: "c \<noteq> rn CHR ''}''"
    and ncomma: "c \<noteq> rn CHR '',''"
    and c1: "setTop (ctx (skipWhitespace p0)) inObjectKey = Some c1"
    and ks: "parseString ((skipWhitespace p0)\<lparr>ctx := c1\<rparr>) = (Inr key, p2)"
    and p4: "p4 = (if getChar (skipWhitespace p2) 0 = Some (rn CHR '':'')
                   then advance (skipWhitespace p2) 1 else skipWhitespace p2)"
    and c5: "setTop (ctx p4) inObjectValue = Some c5"
    and pj: "parseJSON n (p4\<lparr>ctx := c5\<rparr>) = Some (Inr v, p6)"
  shows "objectLoop (Suc n) p0 obj =
            (if getChar (skipWhitespace p6) 0 = Some (rn CHR '','')
             then objectLoop n (advance (skipWhitespace p6) 1) (mapPut obj key v)
             else if getChar (skipWhitespace p6) 0 = Some (rn CHR ''}'')
             then Some (Inr (mapPut obj key v), skipWhitespace p6)
             else objectLoop n (skipWhitespace p6) (mapPut obj key v))"
proof -
  have unf: "objectLoop (Suc n) p0 obj =
                (case parseJSON n (p4\<lparr>ctx := c5\<rparr>) of
                   None \<Rightarrow> None
                 | Some (Inl Panic, p6) \<Rightarrow> Some (Inl Panic, p6)
                 | Some (r, p6) \<Rightarrow>
                     let obj' = mapPut obj key (valueOrEmpty r);
                         p7 = skipWhitespace p6
                     in if getChar p7 0 = Some (rn CHR '','')
                        then objectLoop n (advance p7 1) obj'
                        else if getChar p7 0 = Some (rn CHR ''}'')
                        then Some (Inr obj', p7)
                        else objectLoop n p7 obj')"
    by (simp only: objectLoop.simps Let_def c option.case nclose ncomma
          if_False c1 ks prod.case sum.case p4 [symmetric] c5)
  show ?thesis unfolding unf using pj by (simp add: Let_def valueOrEmpty_def)
qed

lemma objectLoop_mono_step:
  assumes inv: "fuelMono n" and run: "objectLoop (Suc n) p0 obj = Some x"
  shows "objectLoop (Suc (Suc n)) p0 obj = Some x"
proof -
  have recur: "objectLoop (Suc n) q m = Some x" if "objectLoop n q m = Some x" for q m
    using inv that unfolding fuelMono_def by blast
  define p where "p = skipWhitespace p0"
  show ?thesis
  proof (cases "getChar p 0")
    case None
    with run show ?thesis by (simp add: p_def)
  next
    case (Some c)
    show ?thesis
    proof (cases "c = rn CHR ''}''")
      case True
      with Some run show ?thesis by (simp add: p_def)
    next
      case nclose: False
      show ?thesis
      proof (cases "c = rn CHR '',''")
        case True
        with Some nclose run have "objectLoop n (advance p 1) obj = Some x" by (simp add: p_def)
        from recur [OF this] Some nclose True show ?thesis
          by (subst objectLoop.simps) (simp add: p_def [symmetric] del: objectLoop.simps)
      next
        case ncomma: False
        show ?thesis
        proof (cases "setTop (ctx p) inObjectKey")
          case None
          have "objectLoop (Suc (Suc n)) p0 obj = Some (Inl Panic, p)"
            "objectLoop (Suc n) p0 obj = Some (Inl Panic, p)"
            by (simp_all only: objectLoop.simps Let_def p_def [symmetric] Some option.case nclose
                  ncomma if_False None)
          with run show ?thesis by simp
        next
          case c1: (Some c1)
          obtain key p2 where ks: "parseString (p\<lparr>ctx := c1\<rparr>) = (Inr key, p2)"
            using parseString_ok by blast
          define p4 where "p4 = (if getChar (skipWhitespace p2) 0 = Some (rn CHR '':'')
                                 then advance (skipWhitespace p2) 1 else skipWhitespace p2)"
          show ?thesis
          proof (cases "setTop (ctx p4) inObjectValue")
            case None
            have "objectLoop (Suc (Suc n)) p0 obj = Some (Inl Panic, p4)"
              "objectLoop (Suc n) p0 obj = Some (Inl Panic, p4)"
              by (simp_all only: objectLoop.simps Let_def p_def [symmetric] Some option.case nclose
                    ncomma if_False c1 ks prod.case sum.case p4_def [symmetric] None)
            with run show ?thesis by simp
          next
            case c5: (Some c5)
            define p5 where "p5 = p4\<lparr>ctx := c5\<rparr>"
            have unf: "objectLoop (Suc n) p0 obj =
                (case parseJSON n p5 of
                   None \<Rightarrow> None
                 | Some (Inl Panic, p6) \<Rightarrow> Some (Inl Panic, p6)
                 | Some (r, p6) \<Rightarrow>
                     let obj' = mapPut obj key (valueOrEmpty r);
                         p7 = skipWhitespace p6
                     in if getChar p7 0 = Some (rn CHR '','')
                        then objectLoop n (advance p7 1) obj'
                        else if getChar p7 0 = Some (rn CHR ''}'')
                        then Some (Inr obj', p7)
                        else objectLoop n p7 obj')"
              by (simp only: objectLoop.simps Let_def p_def [symmetric] Some option.case nclose ncomma
                  if_False c1 ks prod.case sum.case p4_def [symmetric] c5 p5_def [symmetric])
            from run unf obtain rr p6 where pj: "parseJSON n p5 = Some (rr, p6)"
              by (cases "parseJSON n p5") auto
            from parseJSON_facts(1) [OF pj] obtain v where rr: "rr = Inr v" by blast
            from inv pj have pj': "parseJSON (Suc n) p5 = Some (rr, p6)"
              unfolding fuelMono_def by blast
            note ph = objectLoop_value_phase [OF Some [unfolded p_def] nclose ncomma
                c1 [unfolded p_def] ks [unfolded p_def] p4_def c5]
            note e1 = ph [OF pj [unfolded rr p5_def], of obj]
            note e2 = ph [OF pj' [unfolded rr p5_def], of obj]
            define p7 where "p7 = skipWhitespace p6"
            consider (comma) "getChar p7 0 = Some (rn CHR '','')"
              | (close) "getChar p7 0 \<noteq> Some (rn CHR '','')" "getChar p7 0 = Some (rn CHR ''}'')"
              | (more) "getChar p7 0 \<noteq> Some (rn CHR '','')" "getChar p7 0 \<noteq> Some (rn CHR ''}'')"
              by blast
            then show ?thesis
            proof cases
              case comma
              with run e1 have "objectLoop n (advance p7 1) (mapPut obj key v) = Some x"
                by (simp add: p7_def)
              from recur [OF this] comma show ?thesis
                unfolding e2 by (simp add: p7_def del: objectLoop.simps)
            next
              case close
              with run e1 e2 show ?thesis by (simp add: p7_def del: objectLoop.simps)
            next
              case more
              with run e1 have "objectLoop n p7 (mapPut obj key v) = Some x"
                by (simp add: p7_def)
              from recur [OF this] more show ?thesis
                unfolding e2 by (simp add: p7_def del: objectLoop.simps)
            qed
          qed
        qed
      qed
    qed
  qed
qed

lemma arrayLoop_value_phase:
  assumes c: "getChar (skipWhitespace p0) 0 = Some c" and nclose: "c \<noteq> rn CHR '']''"
    and ncomma: "c \<noteq> rn CHR '',''"
    and pj: "parseJSON n (skipWhitespace p0) = Some (Inr v, p1)"
  shows "arrayLoop (Suc n) p0 arr =
            (if getChar (skipWhitespace p1) 0 = Some (rn CHR '','')
             then arrayLoop n (advance (skipWhitespace p1) 1) (arr @ [v])
             else if getChar (skipWhitespace p1) 0 = Some (rn CHR '']'')
             then Some (Inr (arr @ [v]), skipWhitespace p1)
             else arrayLoop n (skipWhitespace p1) (arr @ [v]))"
proof -
  have unf: "arrayLoop (Suc n) p0 arr =
            (case parseJSON n (skipWhitespace p0) of
               None \<Rightarrow> None
             | Some (Inl Panic, p1) \<Rightarrow> Some (Inl Panic, p1)
             | Some (Inl Err, p1) \<Rightarrow>
                 let p2 = skipWhitespace p1 in
                 if getChar p2 0 = Some (rn CHR '']'') then Some (Inr arr, p2)
                 else arrayLoop n (advance p2 1) arr
             | Some (Inr value, p1) \<Rightarrow>
                 let arr' = arr @ [value];
                     p2 = skipWhitespace p1
                 in if getChar p2 0 = Some (rn CHR '','') then arrayLoop n (advance p2 1) arr'
                    else if getChar p2 0 = Some (rn CHR '']'') then Some (Inr arr', p2)
                    else arrayLoop n p2 arr')"
    by (simp only: arrayLoop.simps Let_def c option.case nclose ncomma if_False)
  show ?thesis unfolding unf using pj by (simp add: Let_def)
qed

lemma arrayLoop_mono_step:
  assumes inv: "fuelMono n" and run: "arrayLoop (Suc n) p0 arr = Some x"
  shows "arrayLoop (Suc (Suc n)) p0 arr = Some x"
proof -
  have recur: "arrayLoop (Suc n) q m = Some x" if "arrayLoop n q m = Some x" for q m
    using inv that unfolding fuelMono_def by blast
  define p where "p = skipWhitespace p0"
  show ?thesis
  proof (cases "getChar p 0")
    case None
    with run show ?thesis by (simp add: p_def)
  next
    case (Some c)
    show ?thesis
    proof (cases "c = rn CHR '']''")
      case True
      with Some run show ?thesis by (simp add: p_def)
    next
      case nclose: False
      show ?thesis
      proof (cases "c = rn CHR '',''")
        case True
        with Some nclose run have "arrayLoop n (advance p 1) arr = Some x" by (simp add: p_def)
        from recur [OF this] Some nclose True show ?thesis
          by (subst arrayLoop.simps) (simp add: p_def [symmetric] del: arrayLoop.simps)
      next
        case ncomma: False
        have "parseJSON n p \<noteq> None"
        proof
          assume "parseJSON n p = None"
          then have "arrayLoop (Suc n) p0 arr = None"
            by (simp only: arrayLoop.simps Let_def p_def [symmetric] Some option.case nclose ncomma
                  if_False)
          with run show False by simp
        qed
        then obtain rr p1 where pj: "parseJSON n p = Some (rr, p1)" by auto
        from parseJSON_facts(1) [OF pj] obtain v where rr: "rr = Inr v" by blast
        from inv pj have pj': "parseJSON (Suc n) p = Some (rr, p1)"
          unfolding fuelMono_def by blast
        note ph = arrayLoop_value_phase [OF Some [unfolded p_def] nclose ncomma]
        note e1 = ph [OF pj [unfolded rr p_def], of arr]
        note e2 = ph [OF pj' [unfolded rr p_def], of arr]
        define p2 where "p2 = skipWhitespace p1"
        consider (comma) "getChar p2 0 = Some (rn CHR '','')"
          | (close) "getChar p2 0 \<noteq> Some (rn CHR '','')" "getChar p2 0 = Some (rn CHR '']'')"
          | (more) "getChar p2 0 \<noteq> Some (rn CHR '','')" "getChar p2 0 \<noteq> Some (rn CHR '']'')"
          by blast
        then show ?thesis
        proof cases
          case comma
          with run e1 have "arrayLoop n (advance p2 1) (arr @ [v]) = Some x"
            by (simp add: p2_def)
          from recur [OF this] comma show ?thesis
            unfolding e2 by (simp add: p2_def del: arrayLoop.simps)
        next
          case close
          with run e1 e2 show ?thesis by (simp add: p2_def del: arrayLoop.simps)
        next
          case more
          with run e1 have "arrayLoop n p2 (arr @ [v]) = Some x"
            by (simp add: p2_def)
          from recur [OF this] more show ?thesis
            unfolding e2 by (simp add: p2_def del: arrayLoop.simps)
        qed
      qed
    qed
  qed
qed

lemma fuelMono_all: "fuelMono n"
proof (induction n)
  case 0
  show ?case by (simp add: fuelMono_def)
next
  case (Suc n)
  show ?case
    unfolding fuelMono_def
    using parseJSON_mono_step [OF Suc] parseObject_mono_step [OF Suc] objectLoop_mono_step [OF Suc]
      parseArray_mono_step [OF Suc] arrayLoop_mono_step [OF Suc]
    by blast
qed

lemma parseJSON_mono: "parseJSON n p = Some x \<Longrightarrow> n \<le> m \<Longrightarrow> parseJSON m p = Some x"
proof (induction m)
  case 0
  then show ?case by simp
next
  case (Suc m)
  show ?case
  proof (cases "n = Suc m")
    case True
    with Suc.prems show ?thesis by simp
  next
    case False
    with Suc have "parseJSON m p = Some x" by simp
    with fuelMono_all [of m] show ?thesis unfolding fuelMono_def by blast
  qed
qed


lemma ParseLoop_mono_Suc:
  "ParseLoop n p0 results = Some x \<Longrightarrow> ParseLoop (Suc n) p0 results = Some x"
proof (induction n arbitrary: p0 results)
  case 0
  then show ?case by simp
next
  case (Suc n)
  note run = Suc.prems
  show ?case
  proof (cases "index p0 < length (jsonStr p0)")
    case False
    with run show ?thesis by simp
  next
    case True
    define p where "p = skipWhitespace p0"
    show ?thesis
    proof (cases "index p = length (jsonStr p)")
      case atend: True
      with True run show ?thesis by (simp add: p_def [symmetric])
    next
      case False
      from run True False obtain rr p1 where pj: "parseJSON n p = Some (rr, p1)"
        by (cases "parseJSON n p") (auto simp: p_def [symmetric])
      from parseJSON_facts(1) [OF pj] obtain v where rr: "rr = Inr v" by blast
      have pj': "parseJSON (Suc n) p = Some (Inr v, p1)"
        using parseJSON_mono [OF pj, of "Suc n"] rr by simp
      show ?thesis
      proof (cases "v = JNil")
        case nil: True
        with run True False pj rr have "ParseLoop n (advance p1 1) results = Some x"
          by (simp add: p_def [symmetric])
        from Suc.IH [OF this] True False pj' nil show ?thesis
          by (subst ParseLoop.simps)
             (simp add: p_def [symmetric] del: ParseLoop.simps parseJSON.simps)
      next
        case val: False
        with run True False pj rr have "ParseLoop n p1 (results @ [v]) = Some x"
          by (simp add: p_def [symmetric])
        from Suc.IH [OF this] True False pj' val show ?thesis
          by (subst ParseLoop.simps)
             (simp add: p_def [symmetric] del: ParseLoop.simps parseJSON.simps)
      qed
    qed
  qed
qed

lemma ParseLoop_mono:
  "ParseLoop n p results = Some x \<Longrightarrow> n \<le> m \<Longrightarrow> ParseLoop m p results = Some x"
proof (induction m)
  case 0
  then show ?case by simp
next
  case (Suc m)
  show ?case
  proof (cases "n = Suc m")
    case True
    with Suc.prems show ?thesis by simp
  next
    case False
    with Suc have "ParseLoop m p results = Some x" by simp
    then show ?thesis by (rule ParseLoop_mono_Suc)
  qed
qed

lemma ParseWith_mono:
  assumes run: "ParseWith n p = Some x" and le: "n \<le> m"
  shows "ParseWith m p = Some x"
proof -
  from run obtain rr p1 where pj: "parseJSON n p = Some (rr, p1)"
    by (cases "parseJSON n p") (auto simp: ParseWith_def)
  from parseJSON_facts(1) [OF pj] obtain v where rr: "rr = Inr v" by blast
  have pj': "parseJSON m p = Some (Inr v, p1)"
    using parseJSON_mono [OF pj le] rr by simp
  define q where "q = skipWhitespace p1"
  show ?thesis
  proof (cases "index q < length (jsonStr q)")
    case False
    with run pj rr pj' show ?thesis by (simp add: ParseWith_def q_def [symmetric])
  next
    case True
    with run pj rr obtain y where pl: "ParseLoop n q [v] = Some y"
      by (cases "ParseLoop n q [v]") (auto simp: ParseWith_def q_def [symmetric])
    from ParseLoop_mono [OF pl le] have "ParseLoop m q [v] = Some y" .
    with run pj rr pj' pl True show ?thesis by (simp add: ParseWith_def q_def [symmetric])
  qed
qed

lemma ParseWith_Parse:
  assumes "3 * remaining p + 2 \<le> n"
  shows "ParseWith n p = Parse p"
proof -
  from ParseWith_total [OF assms] obtain v p' where a: "ParseWith n p = Some (Inr v, p')" by blast
  from Parse_total [of p] obtain w p'' where b: "Parse p = Some (Inr w, p'')" by blast
  show ?thesis
  proof (cases "n \<le> parseFuel p")
    case True
    from ParseWith_mono [OF a True] b show ?thesis by (simp add: Parse_def a)
  next
    case False
    then have "parseFuel p \<le> n" by simp
    from ParseWith_mono [OF b [unfolded Parse_def] this] b show ?thesis by simp
  qed
qed

section \<open>Running the parser on a given text\<close>

text \<open>The equations of the recursive functions for a depth written as a numeral.\<close>

lemmas fuel_numeral =
  parseJSON.simps(2) [of "pred_numeral k" for k, folded numeral_eq_Suc]
  parseObject.simps(2) [of "pred_numeral k" for k, folded numeral_eq_Suc]
  objectLoop.simps(2) [of "pred_numeral k" for k, folded numeral_eq_Suc]
  parseArray.simps(2) [of "pred_numeral k" for k, folded numeral_eq_Suc]
  arrayLoop.simps(2) [of "pred_numeral k" for k, folded numeral_eq_Suc]
  ParseLoop.simps(2) [of "pred_numeral k" for k, folded numeral_eq_Suc]
  loopValues.simps(2) [of "pred_numeral k" for k, folded numeral_eq_Suc]

lemmas run_simps =
  fuel_numeral Parse_def ParseWith_def parseFuel_def NewParser_def parseString_def parseNumber_def
  parseBooleanOrNull_def asValue_def getChar_def advance_def skipWhitespace.simps stringLoop.simps
  numberLoop.simps IsSpace_def IsDigit_def IsLetter_def in_ranges_def letterContext_def current_def
  push_def pop_def setTop_def missingQuoteEnd_def escapeRune_def valueOrEmpty_def HasPrefix_def
  TrimRight_def ParseInt_def asciiDigit_def digitsVal_def dquote_def squote_def backslash_def Let_def

section \<open>Recovery never fails\<close>

text \<open>
  C1. For every input the recovery path ends without an error: \<^verbatim>\<open>Parse\<close> returns a value
  and a nil error (for every parser state, so also for the state \<open>NewParser s\<close>), and a
  larger depth bound gives the same result; \<^verbatim>\<open>Loads\<close> never returns an error, and \<^verbatim>\<open>Repair\<close> returns an error only when \<^verbatim>\<open>MarshalIndent\<close> fails,
  on the decoded value of a valid text or on the value that \<^verbatim>\<open>Parse\<close> recovered.
\<close>

theorem recovery_never_fails:
  "(\<exists>v p'. Parse p = Some (Inr v, p'))
   \<and> (\<forall>n. parseFuel p \<le> n \<longrightarrow> ParseWith n p = Parse p)
   \<and> (\<exists>v. Loads Unmarshal s = Some (Inr v))
   \<and> ((\<exists>t. Repair Unmarshal MarshalIndent s = Some (Inr t))
      \<or> (Repair Unmarshal MarshalIndent s = Some (Inl RemarshalValid)
          \<and> (\<exists>out. Unmarshal s = Some out \<and> MarshalIndent out = None))
      \<or> (Repair Unmarshal MarshalIndent s = Some (Inl MarshalRepaired)
          \<and> Unmarshal s = None
          \<and> (\<exists>v p'. Parse (NewParser s) = Some (Inr v, p') \<and> MarshalIndent v = None)))"
proof -
  have total: "\<exists>v p'. Parse q = Some (Inr v, p')" for q
    using Parse_total [of q] by blast
  obtain v p' where pv: "Parse (NewParser s) = Some (Inr v, p')"
    using total by blast
  have "\<exists>w. Loads Unmarshal s = Some (Inr w)"
    using pv by (cases "Unmarshal s") (simp_all add: Loads_def)
  moreover have "(\<exists>t. Repair Unmarshal MarshalIndent s = Some (Inr t))
      \<or> (Repair Unmarshal MarshalIndent s = Some (Inl RemarshalValid)
          \<and> (\<exists>out. Unmarshal s = Some out \<and> MarshalIndent out = None))
      \<or> (Repair Unmarshal MarshalIndent s = Some (Inl MarshalRepaired)
          \<and> Unmarshal s = None
          \<and> (\<exists>v p'. Parse (NewParser s) = Some (Inr v, p') \<and> MarshalIndent v = None))"
  proof (cases "Unmarshal s")
    case None
    with pv show ?thesis by (cases "MarshalIndent v") (simp_all add: Repair_def)
  next
    case (Some out)
    then show ?thesis by (cases "MarshalIndent out") (simp_all add: Repair_def)
  qed
  moreover have "\<forall>n. parseFuel p \<le> n \<longrightarrow> ParseWith n p = Parse p"
    by (auto intro!: ParseWith_Parse simp: parseFuel_def remaining_def)
  ultimately show ?thesis using total by blast
qed

theorem recovery_never_fails_witness:
  "(\<exists>v p'. Parse (NewParser (map rn ''[1, x'')) = Some (Inr v, p'))
   \<and> parseFuel (NewParser (map rn ''[1, x'')) \<le> 40
   \<and> ParseWith 40 (NewParser (map rn ''[1, x'')) = Parse (NewParser (map rn ''[1, x''))
   \<and> Loads (\<lambda>t. None) (map rn ''[1, x'') = Some (Inr (JArray [JInt 1, JString (map rn ''x'')]))
   \<and> Repair (\<lambda>t. None) (\<lambda>v. None) (map rn ''[1, x'') = Some (Inl MarshalRepaired)"
  using recovery_never_fails [of "NewParser (map rn ''[1, x'')" "\<lambda>t. None" "map rn ''[1, x''" "\<lambda>v. None"]
  by (simp add: run_simps Loads_def Repair_def)

section \<open>The dispatcher always returns\<close>

text \<open>
  C8. \<^verbatim>\<open>parseJSON\<close> returns for every parser state: a depth of three units for each rune
  still to be read, and one more, is enough, the result is a value with a nil error, and
  it is the same for every larger depth.
  At the end of the input it returns the nil value at once. When the rune at the cursor
  starts no value, the call is the same as the call one rune further, and that call
  again has enough depth.
\<close>

theorem parseJSON_total:
  "3 * remaining p + 1 \<le> n \<Longrightarrow>
     (\<exists>v p'. parseJSON n p = Some (Inr v, p'))
     \<and> (\<forall>m. n \<le> m \<longrightarrow> parseJSON m p = parseJSON n p)
     \<and> (getChar (skipWhitespace p) 0 = None \<longrightarrow> parseJSON n p = Some (Inr JNil, skipWhitespace p))
     \<and> (\<forall>c. getChar (skipWhitespace p) 0 = Some c
            \<and> c \<noteq> rn CHR ''{'' \<and> c \<noteq> rn CHR ''['' \<and> c \<noteq> dquote \<and> c \<noteq> squote
            \<and> \<not> IsDigit c \<and> c \<noteq> rn CHR ''-''
            \<and> c \<noteq> rn CHR ''t'' \<and> c \<noteq> rn CHR ''f'' \<and> c \<noteq> rn CHR ''n''
            \<and> \<not> (IsLetter c \<and> letterContext (ctx p))
          \<longrightarrow> parseJSON n p = parseJSON (n - 1) (advance (skipWhitespace p) 1)
              \<and> index (advance (skipWhitespace p) 1) = index (skipWhitespace p) + 1
              \<and> remaining (advance (skipWhitespace p) 1) < remaining p
              \<and> 3 * remaining (advance (skipWhitespace p) 1) + 1 \<le> n - 1)"
proof -
  assume fuel: "3 * remaining p + 1 \<le> n"
  then obtain m where n: "n = Suc m" by (cases n) auto
  define q where "q = skipWhitespace p"
  have sq: "steps p q" unfolding q_def by (rule skipWhitespace_steps)
  have ex: "\<exists>v p'. parseJSON n p = Some (Inr v, p')" using fuel by (rule parseJSON_fuel)
  have "\<forall>m. n \<le> m \<longrightarrow> parseJSON m p = parseJSON n p"
    using ex parseJSON_mono [of n p] by fastforce
  moreover note ex
  moreover have "parseJSON n p = Some (Inr JNil, q)" if "getChar q 0 = None"
    using that by (simp add: n q_def)
  moreover have "parseJSON n p = parseJSON (n - 1) (advance q 1)
              \<and> index (advance q 1) = index q + 1
              \<and> remaining (advance q 1) < remaining p
              \<and> 3 * remaining (advance q 1) + 1 \<le> n - 1"
    if c: "getChar q 0 = Some c" and g: "c \<noteq> rn CHR ''{''" "c \<noteq> rn CHR ''[''" "c \<noteq> dquote" "c \<noteq> squote"
      "\<not> IsDigit c" "c \<noteq> rn CHR ''-''" "c \<noteq> rn CHR ''t''" "c \<noteq> rn CHR ''f''" "c \<noteq> rn CHR ''n''"
      "\<not> (IsLetter c \<and> letterContext (ctx p))" for c
  proof -
    have cq: "ctx q = ctx p" using sq by (simp add: steps_def)
    have "remaining (advance q 1) < remaining q"
      using getChar0_Some [OF c] by (simp add: remaining_def)
    with remaining_steps [OF sq] have r: "remaining (advance q 1) < remaining p" by simp
    have "parseJSON (Suc m) p = parseJSON m (advance q 1)"
      using c g cq by (auto simp: q_def [symmetric])
    with r fuel show ?thesis by (simp add: n)
  qed
  ultimately show ?thesis unfolding q_def by blast
qed

theorem parseJSON_total_witness:
  "3 * remaining (NewParser (map rn ''; 7'')) + 1 \<le> 10
   \<and> parseJSON 10 (NewParser (map rn ''; 7''))
       = Some (Inr (JInt 7), \<lparr>jsonStr = map rn ''; 7'', index = 3, ctx = []\<rparr>)
   \<and> parseJSON 10 (NewParser (map rn ''; 7''))
       = parseJSON 9 \<lparr>jsonStr = map rn ''; 7'', index = 1, ctx = []\<rparr>
   \<and> parseJSON 12 (NewParser (map rn ''; 7'')) = parseJSON 10 (NewParser (map rn ''; 7''))
   \<and> parseJSON 1 (NewParser []) = Some (Inr JNil, NewParser [])"
  using parseJSON_total [of "NewParser (map rn ''; 7'')" 10] parseJSON_total [of "NewParser []" 1]
  by (simp add: run_simps remaining_def)

section \<open>The cursor never moves back\<close>

lemma parseObject_facts:
  assumes "parseObject n p = Some (r, p')"
  shows "\<exists>v. r = Inr v" "steps p p'"
  using descentInv_all [of n] assms unfolding descentInv_def by blast+

lemma parseArray_facts:
  assumes "parseArray n p = Some (r, p')"
  shows "\<exists>v. r = Inr v" "steps p p'"
  using descentInv_all [of n] assms unfolding descentInv_def by blast+

lemma arrayLoop_facts:
  assumes "arrayLoop n p arr = Some (r, p')"
  shows "\<exists>v. r = Inr v" "steps p p'"
  using descentInv_all [of n] assms unfolding descentInv_def by blast+

lemma objectLoop_facts:
  assumes "objectLoop n p obj = Some (r, p')"
  shows "jsonStr p' = jsonStr p" "index p \<le> index p'"
  using descentInv_all [of n] assms unfolding descentInv_def by blast+

text \<open>
  C9. Every operation of the parser leaves the cursor where it was or further on:
  whitespace skipping, the string, number and literal parsers, the dispatcher, the object
  and array parsers with their loops, the loop of \<^verbatim>\<open>Parse\<close> and \<^verbatim>\<open>Parse\<close> itself. The input and
  (for the operations that restore it) the context stack are the same afterwards.
\<close>

theorem cursor_monotonic:
  "index p \<le> index (skipWhitespace p)
   \<and> (\<forall>r p'. parseString p = (r, p') \<longrightarrow> index p \<le> index p' \<and> jsonStr p' = jsonStr p)
   \<and> (\<forall>r p'. parseNumber p = (r, p') \<longrightarrow> index p \<le> index p' \<and> jsonStr p' = jsonStr p)
   \<and> (\<forall>r p'. parseBooleanOrNull p = (r, p') \<longrightarrow> index p \<le> index p' \<and> jsonStr p' = jsonStr p)
   \<and> (\<forall>r p'. parseJSON n p = Some (r, p') \<longrightarrow> index p \<le> index p' \<and> jsonStr p' = jsonStr p)
   \<and> (\<forall>r p'. parseObject n p = Some (r, p') \<longrightarrow> index p \<le> index p' \<and> jsonStr p' = jsonStr p)
   \<and> (\<forall>r p'. objectLoop n p obj = Some (r, p') \<longrightarrow> index p \<le> index p' \<and> jsonStr p' = jsonStr p)
   \<and> (\<forall>r p'. parseArray n p = Some (r, p') \<longrightarrow> index p \<le> index p' \<and> jsonStr p' = jsonStr p)
   \<and> (\<forall>r p'. arrayLoop n p arr = Some (r, p') \<longrightarrow> index p \<le> index p' \<and> jsonStr p' = jsonStr p)
   \<and> (\<forall>r p'. ParseLoop n p results = Some (r, p') \<longrightarrow> index p \<le> index p' \<and> jsonStr p' = jsonStr p)
   \<and> (\<forall>r p'. Parse p = Some (r, p') \<longrightarrow> index p \<le> index p' \<and> jsonStr p' = jsonStr p)"
proof -
  have "index p \<le> index (skipWhitespace p)"
    using skipWhitespace_steps [of p] by (simp add: steps_def)
  moreover have "index p \<le> index p' \<and> jsonStr p' = jsonStr p" if "parseString p = (r, p')" for r p'
    using parseString_steps [OF that] by (simp add: steps_def)
  moreover have "index p \<le> index p' \<and> jsonStr p' = jsonStr p" if "parseNumber p = (r, p')" for r p'
    using parseNumber_steps [OF that] by (simp add: steps_def)
  moreover have "index p \<le> index p' \<and> jsonStr p' = jsonStr p" if "parseBooleanOrNull p = (r, p')" for r p'
    using parseBooleanOrNull_steps [OF that] by (simp add: steps_def)
  moreover have "index p \<le> index p' \<and> jsonStr p' = jsonStr p" if "parseJSON n p = Some (r, p')" for r p'
    using parseJSON_facts(2) [OF that] by (simp add: steps_def)
  moreover have "index p \<le> index p' \<and> jsonStr p' = jsonStr p" if "parseObject n p = Some (r, p')" for r p'
    using parseObject_facts(2) [OF that] by (simp add: steps_def)
  moreover have "index p \<le> index p' \<and> jsonStr p' = jsonStr p" if "objectLoop n p obj = Some (r, p')" for r p'
    using objectLoop_facts [OF that] by simp
  moreover have "index p \<le> index p' \<and> jsonStr p' = jsonStr p" if "parseArray n p = Some (r, p')" for r p'
    using parseArray_facts(2) [OF that] by (simp add: steps_def)
  moreover have "index p \<le> index p' \<and> jsonStr p' = jsonStr p" if "arrayLoop n p arr = Some (r, p')" for r p'
    using arrayLoop_facts(2) [OF that] by (simp add: steps_def)
  moreover have "index p \<le> index p' \<and> jsonStr p' = jsonStr p" if "ParseLoop n p results = Some (r, p')" for r p'
    using ParseLoop_collects [OF that] by (simp add: steps_def)
  moreover have "index p \<le> index p' \<and> jsonStr p' = jsonStr p" if "Parse p = Some (r, p')" for r p'
    using Parse_total [of p] that by (auto simp: steps_def)
  ultimately show ?thesis by blast
qed

theorem cursor_monotonic_witness:
  "index (skipWhitespace \<lparr>jsonStr = map rn '' [7,t'', index = 0, ctx = [inArray]\<rparr>) = 1
   \<and> parseString \<lparr>jsonStr = map rn '' [7,t'', index = 0, ctx = [inArray]\<rparr>
       = (Inr (map rn ''[7''), \<lparr>jsonStr = map rn '' [7,t'', index = 3, ctx = [inArray]\<rparr>)
   \<and> parseNumber \<lparr>jsonStr = map rn '' [7,t'', index = 0, ctx = [inArray]\<rparr>
       = (Inr (JString []), \<lparr>jsonStr = map rn '' [7,t'', index = 0, ctx = [inArray]\<rparr>)
   \<and> parseBooleanOrNull \<lparr>jsonStr = map rn '' [7,t'', index = 0, ctx = [inArray]\<rparr>
       = (Inr (JString (map rn ''[7'')), \<lparr>jsonStr = map rn '' [7,t'', index = 3, ctx = [inArray]\<rparr>)
   \<and> parseJSON 9 \<lparr>jsonStr = map rn '' [7,t'', index = 0, ctx = [inArray]\<rparr>
       = Some (Inr (JArray [JInt 7, JString (map rn ''t'')]),
               \<lparr>jsonStr = map rn '' [7,t'', index = 5, ctx = [inArray]\<rparr>)
   \<and> parseObject 9 \<lparr>jsonStr = map rn '' [7,t'', index = 0, ctx = [inArray]\<rparr>
       = Some (Inr (JObject [(map rn ''[7,t'', JNil)]),
               \<lparr>jsonStr = map rn '' [7,t'', index = 5, ctx = [inArray]\<rparr>)
   \<and> objectLoop 9 \<lparr>jsonStr = map rn '' [7,t'', index = 0, ctx = [inArray]\<rparr> []
       = Some (Inr [(map rn ''[7,t'', JNil)],
               \<lparr>jsonStr = map rn '' [7,t'', index = 5, ctx = [inObjectValue]\<rparr>)
   \<and> parseArray 9 \<lparr>jsonStr = map rn '' [7,t'', index = 0, ctx = [inArray]\<rparr>
       = Some (Inr (JArray [JArray [JInt 7, JString (map rn ''t'')]]),
               \<lparr>jsonStr = map rn '' [7,t'', index = 5, ctx = [inArray]\<rparr>)
   \<and> arrayLoop 9 \<lparr>jsonStr = map rn '' [7,t'', index = 0, ctx = [inArray]\<rparr> []
       = Some (Inr [JArray [JInt 7, JString (map rn ''t'')]],
               \<lparr>jsonStr = map rn '' [7,t'', index = 5, ctx = [inArray]\<rparr>)
   \<and> ParseLoop 9 \<lparr>jsonStr = map rn '' [7,t'', index = 0, ctx = [inArray]\<rparr> []
       = Some (Inr [JArray [JInt 7, JString (map rn ''t'')]],
               \<lparr>jsonStr = map rn '' [7,t'', index = 5, ctx = [inArray]\<rparr>)
   \<and> Parse \<lparr>jsonStr = map rn '' [7,t'', index = 0, ctx = [inArray]\<rparr>
       = Some (Inr (JArray [JInt 7, JString (map rn ''t'')]),
               \<lparr>jsonStr = map rn '' [7,t'', index = 5, ctx = [inArray]\<rparr>)"
  using cursor_monotonic [of "\<lparr>jsonStr = map rn '' [7,t'', index = 0, ctx = [inArray]\<rparr>" 9 "[]" "[]" "[]"]
  by (simp add: run_simps)


section \<open>Inputs without any value\<close>

lemma skipWhitespace_all_space:
  assumes "list_all IsSpace (drop (index p) (jsonStr p))"
  shows "getChar (skipWhitespace p) 0 = None"
proof (cases "getChar (skipWhitespace p) 0")
  case None
  then show ?thesis .
next
  case (Some c)
  define q where "q = skipWhitespace p"
  have sq: "steps p q" unfolding q_def by (rule skipWhitespace_steps)
  from Some have lt: "index q < length (jsonStr q)" and c: "c = jsonStr q ! index q"
    by (simp_all add: getChar0 q_def split: if_splits)
  from sq have "index p \<le> index q" "jsonStr q = jsonStr p" by (simp_all add: steps_def)
  with lt c have "c \<in> set (drop (index p) (jsonStr p))"
    by (auto simp: in_set_conv_nth intro!: exI [of _ "index q - index p"])
  with assms have "IsSpace c" by (simp add: list_all_iff)
  with skipWhitespace_nonspace [OF Some] show ?thesis by simp
qed

lemma Parse_all_space:
  assumes "list_all IsSpace (drop (index p) (jsonStr p))"
  shows "Parse p = Some (Inr JNil, skipWhitespace p)"
proof -
  have none: "getChar (skipWhitespace p) 0 = None" using assms by (rule skipWhitespace_all_space)
  obtain m where m: "parseFuel p = Suc m" by (simp add: parseFuel_def)
  have "parseJSON (Suc m) p = Some (Inr JNil, skipWhitespace p)" using none by simp
  moreover have "\<not> index (skipWhitespace p) < length (jsonStr (skipWhitespace p))"
    using none by (rule getChar0_None)
  ultimately show ?thesis by (simp add: Parse_def ParseWith_def m)
qed

text \<open>
  C10. When the strict decoder rejects the text and the repair engine recovers no value
  (\<^verbatim>\<open>Parse\<close> returns nil), \<^verbatim>\<open>Loads\<close> returns nil with a nil error and \<^verbatim>\<open>Repair\<close> returns what
  \<^verbatim>\<open>MarshalIndent\<close> makes of nil, which is the text \<^verbatim>\<open>null\<close>. The empty text and every text
  made of whitespace only are such inputs.
\<close>

theorem no_value_gives_null:
  "(list_all IsSpace s \<longrightarrow> (\<exists>p'. Parse (NewParser s) = Some (Inr JNil, p')))
   \<and> (Unmarshal s = None \<and> (\<exists>p'. Parse (NewParser s) = Some (Inr JNil, p'))
        \<and> MarshalIndent JNil = Some (map rn ''null'')
      \<longrightarrow> Loads Unmarshal s = Some (Inr JNil)
          \<and> Repair Unmarshal MarshalIndent s = Some (Inr (map rn ''null'')))"
proof -
  have "\<exists>p'. Parse (NewParser s) = Some (Inr JNil, p')" if "list_all IsSpace s"
    using Parse_all_space [of "NewParser s"] that by (simp add: NewParser_def)
  moreover have "Loads Unmarshal s = Some (Inr JNil)
          \<and> Repair Unmarshal MarshalIndent s = Some (Inr (map rn ''null''))"
    if "Unmarshal s = None" "\<exists>p'. Parse (NewParser s) = Some (Inr JNil, p')"
      "MarshalIndent JNil = Some (map rn ''null'')"
    using that by (auto simp: Loads_def Repair_def)
  ultimately show ?thesis by blast
qed

theorem no_value_gives_null_witness:
  "list_all IsSpace [32, 10, 9]
   \<and> Parse (NewParser [32, 10, 9]) = Some (Inr JNil, \<lparr>jsonStr = [32, 10, 9], index = 3, ctx = []\<rparr>)
   \<and> Parse (NewParser []) = Some (Inr JNil, NewParser [])
   \<and> Loads (\<lambda>t. None) [32, 10, 9] = Some (Inr JNil)
   \<and> Repair (\<lambda>t. None) (\<lambda>v. if v = JNil then Some (map rn ''null'') else None) [32, 10, 9]
       = Some (Inr (map rn ''null''))
   \<and> Repair (\<lambda>t. None) (\<lambda>v. if v = JNil then Some (map rn ''null'') else None) []
       = Some (Inr (map rn ''null''))"
  using no_value_gives_null [of "[32, 10, 9]" "\<lambda>t. None" "\<lambda>v. if v = JNil then Some (map rn ''null'') else None"]
    no_value_gives_null [of "[]" "\<lambda>t. None" "\<lambda>v. if v = JNil then Some (map rn ''null'') else None"]
  by (simp add: run_simps Loads_def Repair_def)

section \<open>Literals\<close>

lemma HasPrefix_Cons: "HasPrefix s (c # cs) \<Longrightarrow> \<exists>t. s = c # t"
  by (cases s) (auto simp: HasPrefix_def)

text \<open>
  C2. On the prefix \<^verbatim>\<open>true\<close>, \<^verbatim>\<open>false\<close> or \<^verbatim>\<open>null\<close> at the cursor the literal parser returns
  the boolean or nil and moves the cursor by 4, 5 or 4 runes, and nothing else changes.
  The three prefixes exclude each other, so the order of the tests decides nothing. With
  none of them it returns what the string parser returns, which is always a string.
\<close>

theorem literal_or_string:
  "index p \<le> length (jsonStr p) \<Longrightarrow>
     (HasPrefix (drop (index p) (jsonStr p)) (map rn ''true'')
        \<longrightarrow> parseBooleanOrNull p = (Inr (JBool True), p\<lparr>index := index p + 4\<rparr>))
     \<and> (HasPrefix (drop (index p) (jsonStr p)) (map rn ''false'')
        \<longrightarrow> parseBooleanOrNull p = (Inr (JBool False), p\<lparr>index := index p + 5\<rparr>))
     \<and> (HasPrefix (drop (index p) (jsonStr p)) (map rn ''null'')
        \<longrightarrow> parseBooleanOrNull p = (Inr JNil, p\<lparr>index := index p + 4\<rparr>))
     \<and> (\<not> HasPrefix (drop (index p) (jsonStr p)) (map rn ''true'')
        \<and> \<not> HasPrefix (drop (index p) (jsonStr p)) (map rn ''false'')
        \<and> \<not> HasPrefix (drop (index p) (jsonStr p)) (map rn ''null'')
        \<longrightarrow> (\<exists>str p'. parseString p = (Inr str, p') \<and> parseBooleanOrNull p = (Inr (JString str), p')))"
proof -
  assume le: "index p \<le> length (jsonStr p)"
  define rest where "rest = drop (index p) (jsonStr p)"
  have t: "parseBooleanOrNull p = (Inr (JBool True), p\<lparr>index := index p + 4\<rparr>)"
    if "HasPrefix rest (map rn ''true'')"
    using that le by (simp add: parseBooleanOrNull_def rest_def advance_def)
  have f: "parseBooleanOrNull p = (Inr (JBool False), p\<lparr>index := index p + 5\<rparr>)"
    if "HasPrefix rest (map rn ''false'')"
  proof -
    from that have "\<not> HasPrefix rest (map rn ''true'')"
      by (auto dest!: HasPrefix_Cons)
    with that le show ?thesis by (simp add: parseBooleanOrNull_def rest_def advance_def)
  qed
  have n: "parseBooleanOrNull p = (Inr JNil, p\<lparr>index := index p + 4\<rparr>)"
    if "HasPrefix rest (map rn ''null'')"
  proof -
    from that have "\<not> HasPrefix rest (map rn ''true'')" "\<not> HasPrefix rest (map rn ''false'')"
      by (auto dest!: HasPrefix_Cons)
    with that le show ?thesis by (simp add: parseBooleanOrNull_def rest_def advance_def)
  qed
  have s: "\<exists>str p'. parseString p = (Inr str, p') \<and> parseBooleanOrNull p = (Inr (JString str), p')"
    if "\<not> HasPrefix rest (map rn ''true'')" "\<not> HasPrefix rest (map rn ''false'')"
      "\<not> HasPrefix rest (map rn ''null'')"
  proof -
    obtain str p' where "parseString p = (Inr str, p')" using parseString_ok by blast
    with that le show ?thesis by (simp add: parseBooleanOrNull_def rest_def asValue_def)
  qed
  from t f n s show ?thesis unfolding rest_def by blast
qed

theorem literal_or_string_witness:
  "parseBooleanOrNull \<lparr>jsonStr = map rn ''[true]'', index = 1, ctx = [inArray]\<rparr>
     = (Inr (JBool True), \<lparr>jsonStr = map rn ''[true]'', index = 5, ctx = [inArray]\<rparr>)
   \<and> parseBooleanOrNull \<lparr>jsonStr = map rn ''[false]'', index = 1, ctx = [inArray]\<rparr>
     = (Inr (JBool False), \<lparr>jsonStr = map rn ''[false]'', index = 6, ctx = [inArray]\<rparr>)
   \<and> parseBooleanOrNull \<lparr>jsonStr = map rn ''[null]'', index = 1, ctx = [inArray]\<rparr>
     = (Inr JNil, \<lparr>jsonStr = map rn ''[null]'', index = 5, ctx = [inArray]\<rparr>)
   \<and> parseBooleanOrNull \<lparr>jsonStr = map rn ''[truthy]'', index = 1, ctx = [inArray]\<rparr>
     = (Inr (JString (map rn ''truthy'')), \<lparr>jsonStr = map rn ''[truthy]'', index = 7, ctx = [inArray]\<rparr>)
   \<and> Parse (NewParser (map rn ''{truthy: falsy}''))
     = Some (Inr (JObject [(map rn ''truthy'', JString (map rn ''falsy''))]),
             \<lparr>jsonStr = map rn ''{truthy: falsy}'', index = 15, ctx = []\<rparr>)"
  using literal_or_string [of "\<lparr>jsonStr = map rn ''[true]'', index = 1, ctx = [inArray]\<rparr>"]
    literal_or_string [of "\<lparr>jsonStr = map rn ''[false]'', index = 1, ctx = [inArray]\<rparr>"]
    literal_or_string [of "\<lparr>jsonStr = map rn ''[null]'', index = 1, ctx = [inArray]\<rparr>"]
    literal_or_string [of "\<lparr>jsonStr = map rn ''[truthy]'', index = 1, ctx = [inArray]\<rparr>"]
  by (simp add: run_simps)

section \<open>Strings without quotes\<close>







section \<open>Escape sequences\<close>



section \<open>Numbers\<close>

lemma advance_0 [simp]: "advance p 0 = p"
  by (simp add: advance_def)

lemma numberLoop_takeWhile:
  "numberLoop p sb =
     (sb @ takeWhile numberRune (drop (index p) (jsonStr p)),
      advance p (length (takeWhile numberRune (drop (index p) (jsonStr p)))))"
proof (induction p sb rule: numberLoop.induct)
  case (1 p sb)
  show ?case
  proof (cases "getChar p 0")
    case None
    then have "drop (index p) (jsonStr p) = []" by (simp add: getChar0 split: if_splits)
    with None show ?thesis by (simp add: numberLoop.simps [of p])
  next
    case (Some c)
    then have lt: "index p < length (jsonStr p)" and c: "jsonStr p ! index p = c"
      by (simp_all add: getChar0 split: if_splits)
    then have d: "drop (index p) (jsonStr p) = c # drop (index p + 1) (jsonStr p)"
      using Cons_nth_drop_Suc [of "index p" "jsonStr p"] by simp
    show ?thesis
    proof (cases "numberRune c")
      case False
      with Some d show ?thesis by (simp add: numberLoop.simps [of p] numberRune_def)
    next
      case True
      then have "\<not> (\<not> IsDigit c \<and> c \<noteq> rn CHR ''.'' \<and> c \<noteq> rn CHR ''-'' \<and> c \<noteq> rn CHR ''e'' \<and> c \<noteq> rn CHR ''E'')"
        by (auto simp: numberRune_def)
      note IH = 1 [OF Some this]
      have "numberLoop p sb = numberLoop (advance p 1) (sb @ [c])"
        using Some True by (auto simp: numberLoop.simps [of p] numberRune_def)
      with IH d True show ?thesis by (simp add: advance_def)
    qed
  qed
qed

text \<open>
  C7, as the code has it. The number parser takes the longest run, from the cursor, of
  runes that are decimal digits in the sense of \<^verbatim>\<open>unicode.IsDigit\<close> (ASCII or not), dots,
  minus signs or the letters e and E, and moves the cursor behind it. A run with a dot, e
  or E goes to \<^verbatim>\<open>ParseFloat\<close>, any other run to \<^verbatim>\<open>ParseInt\<close>; when the conversion fails the
  run itself is returned as a string, and the error is nil in every case.
\<close>

theorem number_run:
  "parseNumber p =
     (let run = takeWhile numberRune (drop (index p) (jsonStr p)) in
      (Inr (if rn CHR ''.'' \<in> set run \<or> rn CHR ''e'' \<in> set run \<or> rn CHR ''E'' \<in> set run
            then (case ParseFloat run of Some f \<Rightarrow> JFloat f | None \<Rightarrow> JString run)
            else (case ParseInt run of Some i \<Rightarrow> JInt i | None \<Rightarrow> JString run)),
       p\<lparr>index := index p + length run\<rparr>))
   \<and> (\<forall>c. numberRune c \<longleftrightarrow> IsDigit c \<or> c = rn CHR ''.'' \<or> c = rn CHR ''-'' \<or> c = rn CHR ''e'' \<or> c = rn CHR ''E'')"
  by (simp add: parseNumber_def numberLoop_takeWhile Let_def advance_def numberRune_def
      split: option.splits)

theorem number_run_witness:
  "parseNumber (NewParser (map rn ''-12.5e3,''))
     = (Inr (JFloat (Float64 True 125 2)), \<lparr>jsonStr = map rn ''-12.5e3,'', index = 7, ctx = []\<rparr>)
   \<and> parseNumber (NewParser (map rn ''42]''))
     = (Inr (JInt 42), \<lparr>jsonStr = map rn ''42]'', index = 2, ctx = []\<rparr>)
   \<and> parseNumber (NewParser (map rn ''1e''))
     = (Inr (JString (map rn ''1e'')), \<lparr>jsonStr = map rn ''1e'', index = 2, ctx = []\<rparr>)
   \<and> parseNumber (NewParser (map rn ''1-2 ''))
     = (Inr (JString (map rn ''1-2'')), \<lparr>jsonStr = map rn ''1-2 '', index = 3, ctx = []\<rparr>)"
  using number_run [of "NewParser (map rn ''-12.5e3,'')"] number_run [of "NewParser (map rn ''42]'')"]
    number_run [of "NewParser (map rn ''1e'')"] number_run [of "NewParser (map rn ''1-2 '')"]
  by (simp add: NewParser_def numberRune_def IsDigit_def ParseInt_def ParseFloat_def asciiDigit_def
      digitsVal_def expVal_def floatOverflow_def Let_def)

text \<open>
  C7 as stated fails on a digit that is not ASCII: for the two runes U+0031 U+0663 (the
  digit one and ARABIC-INDIC DIGIT THREE) the longest run of the runes that the claim
  lists is the first rune alone, but the parser consumes both and returns them as a string.
\<close>

theorem number_run_counterexample:
  "takeWhile specifiedNumberRune (drop (index (NewParser [49, 1635])) (jsonStr (NewParser [49, 1635]))) = [49]
   \<and> parseNumber (NewParser [49, 1635])
       = (Inr (JString [49, 1635]), \<lparr>jsonStr = [49, 1635], index = 2, ctx = []\<rparr>)
   \<and> index (snd (parseNumber (NewParser [49, 1635])))
       \<noteq> index (NewParser [49, 1635])
         + length (takeWhile specifiedNumberRune
                     (drop (index (NewParser [49, 1635])) (jsonStr (NewParser [49, 1635]))))"
  by (simp add: run_simps specifiedNumberRune_def unicode_Nd_def)


section \<open>The value of a key inside an object\<close>

lemma map_of_mapPut: "map_of (mapPut m k v) k = Some v"
  by (induction m k v rule: mapPut.induct) auto

lemma parseObject_result:
  assumes "parseObject n p = Some (r, p')"
  shows "\<exists>obj. r = Inr (JObject obj)"
proof (cases n)
  case 0
  with assms show ?thesis by simp
next
  case (Suc m)
  from parseObject_facts(1) [OF assms] obtain v where v: "r = Inr v" by blast
  define q where "q = p\<lparr>ctx := push (ctx p) inObjectKey\<rparr>"
  from assms Suc obtain rr p1 where ol: "objectLoop m q [] = Some (rr, p1)"
    by (cases "objectLoop m q []") (auto simp: q_def)
  show ?thesis
  proof (cases rr)
    case (Inl e)
    with assms Suc ol v show ?thesis by (simp add: q_def [symmetric])
  next
    case (Inr obj)
    with assms Suc ol show ?thesis by (auto simp: q_def [symmetric] Let_def)
  qed
qed

lemma parseJSON_no_error: "parseJSON n p \<noteq> Some (Inl e, p')"
  using parseJSON_facts(1) [of n p "Inl e" p'] by auto

text \<open>
  C4, as the code has it. The value parser never returns an error, so in the loop of the
  object parser the branch that puts the empty string in place of a failed value is never
  taken. Once the key is parsed, whatever \<^verbatim>\<open>parseJSON\<close> returns is its value with a nil
  error, and the loop goes on with the map in which the key has that value. Where no
  value is left before the end of the input that value is nil, not the empty string.
  The object parser itself never returns an error, and with enough depth it returns an
  object.
\<close>

theorem object_value_stored:
  "(\<forall>e p'. parseJSON n q \<noteq> Some (Inl e, p'))
   \<and> (getChar (skipWhitespace q) 0 = None \<longrightarrow> parseJSON (Suc n) q = Some (Inr JNil, skipWhitespace q))
   \<and> (getChar (skipWhitespace p0) 0 = Some c \<and> c \<noteq> rn CHR ''}'' \<and> c \<noteq> rn CHR '',''
        \<and> setTop (ctx (skipWhitespace p0)) inObjectKey = Some c1
        \<and> parseString ((skipWhitespace p0)\<lparr>ctx := c1\<rparr>) = (Inr key, p2)
        \<and> p4 = (if getChar (skipWhitespace p2) 0 = Some (rn CHR '':'')
                  then advance (skipWhitespace p2) 1 else skipWhitespace p2)
        \<and> setTop (ctx p4) inObjectValue = Some c5
        \<and> parseJSON n (p4\<lparr>ctx := c5\<rparr>) = Some (r, p6)
      \<longrightarrow> (\<exists>v. r = Inr v
            \<and> map_of (mapPut obj key v) key = Some v
            \<and> objectLoop (Suc n) p0 obj =
                (if getChar (skipWhitespace p6) 0 = Some (rn CHR '','')
                 then objectLoop n (advance (skipWhitespace p6) 1) (mapPut obj key v)
                 else if getChar (skipWhitespace p6) 0 = Some (rn CHR ''}'')
                 then Some (Inr (mapPut obj key v), skipWhitespace p6)
                 else objectLoop n (skipWhitespace p6) (mapPut obj key v))))
   \<and> (\<forall>res p'. parseObject n p = Some (res, p') \<longrightarrow> (\<exists>m. res = Inr (JObject m)))
   \<and> (3 * remaining p + 3 \<le> n \<longrightarrow> (\<exists>m p'. parseObject n p = Some (Inr (JObject m), p')))"
proof -
  have a1: "\<forall>e p'. parseJSON n q \<noteq> Some (Inl e, p')"
    using parseJSON_no_error by blast
  have a2: "getChar (skipWhitespace q) 0 = None \<longrightarrow> parseJSON (Suc n) q = Some (Inr JNil, skipWhitespace q)"
    by simp
  have a3: "getChar (skipWhitespace p0) 0 = Some c \<and> c \<noteq> rn CHR ''}'' \<and> c \<noteq> rn CHR '',''
        \<and> setTop (ctx (skipWhitespace p0)) inObjectKey = Some c1
        \<and> parseString ((skipWhitespace p0)\<lparr>ctx := c1\<rparr>) = (Inr key, p2)
        \<and> p4 = (if getChar (skipWhitespace p2) 0 = Some (rn CHR '':'')
                  then advance (skipWhitespace p2) 1 else skipWhitespace p2)
        \<and> setTop (ctx p4) inObjectValue = Some c5
        \<and> parseJSON n (p4\<lparr>ctx := c5\<rparr>) = Some (r, p6)
      \<longrightarrow> (\<exists>v. r = Inr v
            \<and> map_of (mapPut obj key v) key = Some v
            \<and> objectLoop (Suc n) p0 obj =
                (if getChar (skipWhitespace p6) 0 = Some (rn CHR '','')
                 then objectLoop n (advance (skipWhitespace p6) 1) (mapPut obj key v)
                 else if getChar (skipWhitespace p6) 0 = Some (rn CHR ''}'')
                 then Some (Inr (mapPut obj key v), skipWhitespace p6)
                 else objectLoop n (skipWhitespace p6) (mapPut obj key v)))"
  proof (intro impI, elim conjE)
    assume c: "getChar (skipWhitespace p0) 0 = Some c" and nclose: "c \<noteq> rn CHR ''}''"
      and ncomma: "c \<noteq> rn CHR '',''"
      and c1: "setTop (ctx (skipWhitespace p0)) inObjectKey = Some c1"
      and ks: "parseString ((skipWhitespace p0)\<lparr>ctx := c1\<rparr>) = (Inr key, p2)"
      and p4: "p4 = (if getChar (skipWhitespace p2) 0 = Some (rn CHR '':'')
                  then advance (skipWhitespace p2) 1 else skipWhitespace p2)"
      and c5: "setTop (ctx p4) inObjectValue = Some c5"
      and pj: "parseJSON n (p4\<lparr>ctx := c5\<rparr>) = Some (r, p6)"
    from parseJSON_facts(1) [OF pj] obtain v where r: "r = Inr v" by blast
    note ph = objectLoop_value_phase [OF c nclose ncomma c1 ks p4 c5 pj [unfolded r], of obj]
    have "map_of (mapPut obj key v) key = Some v" by (rule map_of_mapPut)
    with r ph show "\<exists>v. r = Inr v
            \<and> map_of (mapPut obj key v) key = Some v
            \<and> objectLoop (Suc n) p0 obj =
                (if getChar (skipWhitespace p6) 0 = Some (rn CHR '','')
                 then objectLoop n (advance (skipWhitespace p6) 1) (mapPut obj key v)
                 else if getChar (skipWhitespace p6) 0 = Some (rn CHR ''}'')
                 then Some (Inr (mapPut obj key v), skipWhitespace p6)
                 else objectLoop n (skipWhitespace p6) (mapPut obj key v))"
      by blast
  qed
  have a4: "\<forall>res p'. parseObject n p = Some (res, p') \<longrightarrow> (\<exists>m. res = Inr (JObject m))"
    using parseObject_result by blast
  have a5: "3 * remaining p + 3 \<le> n \<longrightarrow> (\<exists>m p'. parseObject n p = Some (Inr (JObject m), p'))"
  proof
    assume "3 * remaining p + 3 \<le> n"
    with fuelInv_all [of n] have "parseObject n p \<noteq> None" unfolding fuelInv_def by blast
    then obtain res p' where e: "parseObject n p = Some (res, p')" by auto
    with parseObject_result [OF e] show "\<exists>m p'. parseObject n p = Some (Inr (JObject m), p')" by auto
  qed
  from a1 a2 a3 a4 a5 show ?thesis by (intro conjI)
qed

theorem object_value_stored_witness:
  "parseJSON 18 \<lparr>jsonStr = [123, 34, 97, 34, 58, 125], index = 5, ctx = [inObjectValue]\<rparr>
     = Some (Inr JNil, \<lparr>jsonStr = [123, 34, 97, 34, 58, 125], index = 6, ctx = [inObjectValue]\<rparr>)
   \<and> parseJSON 19 \<lparr>jsonStr = [123, 34, 97, 34, 58, 125], index = 6, ctx = [inObjectValue]\<rparr>
     = Some (Inr JNil, \<lparr>jsonStr = [123, 34, 97, 34, 58, 125], index = 6, ctx = [inObjectValue]\<rparr>)
   \<and> objectLoop 19 \<lparr>jsonStr = [123, 34, 97, 34, 58, 125], index = 1, ctx = [inObjectKey]\<rparr> []
     = Some (Inr [([97], JNil)], \<lparr>jsonStr = [123, 34, 97, 34, 58, 125], index = 6, ctx = [inObjectValue]\<rparr>)
   \<and> map_of (mapPut [] [97] JNil) [97] = Some JNil
   \<and> parseObject 18 \<lparr>jsonStr = [123, 34, 97, 34, 58, 125], index = 1, ctx = []\<rparr>
     = Some (Inr (JObject [([97], JNil)]), \<lparr>jsonStr = [123, 34, 97, 34, 58, 125], index = 6, ctx = []\<rparr>)"
proof -
  let ?s = "[123, 34, 97, 34, 58, 125] :: rune list"
  let ?st0 = "\<lparr>jsonStr = ?s, index = 1, ctx = [inObjectKey]\<rparr>"
  let ?st2 = "\<lparr>jsonStr = ?s, index = 4, ctx = [inObjectKey]\<rparr>"
  let ?st4 = "\<lparr>jsonStr = ?s, index = 5, ctx = [inObjectKey]\<rparr>"
  let ?st6 = "\<lparr>jsonStr = ?s, index = 6, ctx = [inObjectValue]\<rparr>"
  let ?start = "\<lparr>jsonStr = ?s, index = 1, ctx = []\<rparr>"
  have h1: "getChar (skipWhitespace ?st0) 0 = Some dquote" by (simp add: run_simps)
  have h2: "dquote \<noteq> rn CHR ''}''" by (simp add: run_simps)
  have h3: "dquote \<noteq> rn CHR '',''" by (simp add: run_simps)
  have h4: "setTop (ctx (skipWhitespace ?st0)) inObjectKey = Some [inObjectKey]"
    by (simp add: run_simps)
  have h5: "parseString ((skipWhitespace ?st0)\<lparr>ctx := [inObjectKey]\<rparr>) = (Inr [97], ?st2)"
    by (simp add: run_simps)
  have h6: "?st4 = (if getChar (skipWhitespace ?st2) 0 = Some (rn CHR '':'')
                  then advance (skipWhitespace ?st2) 1 else skipWhitespace ?st2)"
    by (simp add: run_simps)
  have h7: "setTop (ctx ?st4) inObjectValue = Some [inObjectValue]" by (simp add: run_simps)
  have h8: "parseJSON 18 (?st4\<lparr>ctx := [inObjectValue]\<rparr>) = Some (Inr JNil, ?st6)"
    by (simp add: run_simps)
  note h = conjI [OF h1 conjI [OF h2 conjI [OF h3 conjI [OF h4 conjI [OF h5 conjI [OF h6
      conjI [OF h7 h8]]]]]]]
  have g: "getChar (skipWhitespace ?st6) 0 = None" by (simp add: run_simps)
  have f: "3 * remaining ?start + 3 \<le> 18" by (simp add: remaining_def)
  have e0: "parseJSON 18 \<lparr>jsonStr = ?s, index = 5, ctx = [inObjectValue]\<rparr> = Some (Inr JNil, ?st6)"
    by (simp add: run_simps)
  have e1: "objectLoop 19 ?st0 [] = Some (Inr [([97], JNil)], ?st6)"
    by (simp add: run_simps)
  have e2: "parseObject 18 ?start = Some (Inr (JObject [([97], JNil)]), \<lparr>jsonStr = ?s, index = 6, ctx = []\<rparr>)"
    by (simp add: run_simps)
  have e3: "skipWhitespace ?st6 = ?st6" by (simp add: run_simps)
  note w = object_value_stored [where n = 18 and q = ?st6 and ?p0.0 = ?st0 and c = dquote
      and ?c1.0 = "[inObjectKey]" and key = "[97]" and ?p2.0 = ?st2 and ?p4.0 = ?st4
      and ?c5.0 = "[inObjectValue]" and r = "Inr JNil" and ?p6.0 = ?st6 and obj = "[]" and p = ?start]
  from w h g f e0 e1 e2 e3 show ?thesis by (auto simp del: parseJSON.simps objectLoop.simps parseObject.simps)
qed

text \<open>
  C4 as stated fails where the value of a key is missing. In \<^verbatim>\<open>{"a":}\<close> no value follows
  the colon: \<^verbatim>\<open>parseJSON\<close> skips the closing brace, finds the end of the input and returns
  nil with a nil error. The key is stored with nil, not with the empty string.
\<close>

theorem object_value_stored_counterexample:
  "parseJSON 18 \<lparr>jsonStr = [123, 34, 97, 34, 58, 125], index = 5, ctx = [inObjectValue]\<rparr>
     = Some (Inr JNil, \<lparr>jsonStr = [123, 34, 97, 34, 58, 125], index = 6, ctx = [inObjectValue]\<rparr>)
   \<and> Parse (NewParser [123, 34, 97, 34, 58, 125])
       = Some (Inr (JObject [([97], JNil)]), \<lparr>jsonStr = [123, 34, 97, 34, 58, 125], index = 6, ctx = []\<rparr>)
   \<and> Parse (NewParser [123, 34, 97, 34, 58, 125])
       \<noteq> Some (Inr (JObject [([97], JString [])]), \<lparr>jsonStr = [123, 34, 97, 34, 58, 125], index = 6, ctx = []\<rparr>)"
  by (simp add: run_simps)

section \<open>Several top-level values\<close>

text \<open>
  C3, as the code has it. \<^verbatim>\<open>Parse\<close> parses a first value. If input is left after it, the
  loop calls \<^verbatim>\<open>parseJSON\<close> again and again; of the values that these calls return
  (\<open>loopValues\<close>), those that are not nil are collected, in the order of the calls. A
  nil result, which a \<^verbatim>\<open>null\<close> literal gives as well as the end of the input, is not
  collected. \<^verbatim>\<open>Parse\<close> returns the first value alone when nothing was collected after
  it, and otherwise the sequence of the first value and the collected ones.
\<close>

theorem Parse_collects:
  "\<exists>first p1. parseJSON (parseFuel p) p = Some (Inr first, p1)
     \<and> (if index (skipWhitespace p1) < length (jsonStr (skipWhitespace p1))
        then \<exists>vs p'. loopValues (parseFuel p) (skipWhitespace p1) = Some vs
               \<and> Parse p = Some (Inr (if filter (\<lambda>v. v \<noteq> JNil) vs = [] then first
                                        else JArray (first # filter (\<lambda>v. v \<noteq> JNil) vs)), p')
        else Parse p = Some (Inr first, skipWhitespace p1))"
proof -
  define n where "n = parseFuel p"
  have fuel: "3 * remaining p + 2 \<le> n" by (simp add: n_def parseFuel_def remaining_def)
  then have "3 * remaining p + 1 \<le> n" by simp
  from parseJSON_fuel [OF this] obtain first p1 where pj: "parseJSON n p = Some (Inr first, p1)"
    by blast
  have s1: "steps p p1" using pj by (rule parseJSON_facts(2))
  define q where "q = skipWhitespace p1"
  have sq: "steps p1 q" unfolding q_def by (rule skipWhitespace_steps)
  have "if index q < length (jsonStr q)
        then \<exists>vs p'. loopValues n q = Some vs
               \<and> Parse p = Some (Inr (if filter (\<lambda>v. v \<noteq> JNil) vs = [] then first
                                        else JArray (first # filter (\<lambda>v. v \<noteq> JNil) vs)), p')
        else Parse p = Some (Inr first, q)"
  proof (cases "index q < length (jsonStr q)")
    case False
    with pj show ?thesis by (simp add: Parse_def ParseWith_def n_def [symmetric] q_def [symmetric])
  next
    case True
    have "remaining q \<le> remaining p" using remaining_steps [OF s1] remaining_steps [OF sq] by simp
    with fuel have "3 * remaining q + 2 \<le> n" by simp
    then have "ParseLoop n q [first] \<noteq> None" by (rule ParseLoop_fuel)
    then obtain r p2 where pl: "ParseLoop n q [first] = Some (r, p2)" by auto
    from ParseLoop_collects [OF pl] obtain vs where lv: "loopValues n q = Some vs"
      and r: "r = Inr ([first] @ filter (\<lambda>v. v \<noteq> JNil) vs)"
      by blast
    have "Parse p = Some (Inr (if filter (\<lambda>v. v \<noteq> JNil) vs = [] then first
                                        else JArray (first # filter (\<lambda>v. v \<noteq> JNil) vs)), p2)"
      using pj True pl r
      by (simp add: Parse_def ParseWith_def n_def [symmetric] q_def [symmetric])
    with lv True show ?thesis by auto
  qed
  with pj show ?thesis unfolding n_def q_def by blast
qed

theorem Parse_collects_witness:
  "Parse (NewParser (map rn ''1 null 2''))
     = Some (Inr (JArray [JInt 1, JInt 2]), \<lparr>jsonStr = map rn ''1 null 2'', index = 8, ctx = []\<rparr>)
   \<and> loopValues (parseFuel (NewParser (map rn ''1 null 2'')))
         \<lparr>jsonStr = map rn ''1 null 2'', index = 2, ctx = []\<rparr> = Some [JNil, JInt 2]
   \<and> Parse (NewParser (map rn ''7 '')) = Some (Inr (JInt 7), \<lparr>jsonStr = map rn ''7 '', index = 2, ctx = []\<rparr>)"
  using Parse_collects [of "NewParser (map rn ''1 null 2'')"] Parse_collects [of "NewParser (map rn ''7 '')"]
  by (simp add: run_simps)

text \<open>
  C3 as stated fails on a \<^verbatim>\<open>null\<close> after the first value. In \<^verbatim>\<open>1 null\<close> the second call of
  \<^verbatim>\<open>parseJSON\<close> reads the literal (the cursor goes from 2 to 6) and returns nil; the loop
  does not collect it, and \<^verbatim>\<open>Parse\<close> returns the integer 1 alone, not the sequence of 1
  and null.
\<close>

theorem Parse_collects_counterexample:
  "parseJSON 20 \<lparr>jsonStr = map rn ''1 null'', index = 2, ctx = []\<rparr>
     = Some (Inr JNil, \<lparr>jsonStr = map rn ''1 null'', index = 6, ctx = []\<rparr>)
   \<and> loopValues (parseFuel (NewParser (map rn ''1 null'')))
         \<lparr>jsonStr = map rn ''1 null'', index = 1, ctx = []\<rparr> = Some [JNil]
   \<and> Parse (NewParser (map rn ''1 null''))
       = Some (Inr (JInt 1), \<lparr>jsonStr = map rn ''1 null'', index = 7, ctx = []\<rparr>)
   \<and> Parse (NewParser (map rn ''1 null''))
       \<noteq> Some (Inr (JArray [JInt 1, JNil]), \<lparr>jsonStr = map rn ''1 null'', index = 7, ctx = []\<rparr>)"
  by (simp add: run_simps)

end
